theory Spec2Isabelle
  imports Main "HOL-Library.AList"
begin

section \<open>The reconciliation engine of the sidecar proxy\<close>

text \<open>
  The engine (type \<open>Proxy\<close> of the source) owns two Go maps: \<open>services\<close>, from a logical
  service name to its shared \<open>*connect.Service\<close>, and \<open>proxyStates\<close>, from a proxy instance
  identifier to its \<open>*proxyState\<close>. \<open>Serve\<close> receives configuration snapshots one at a time;
  for each it calls \<open>runServiceProxy\<close> on every instance of the snapshot and then
  \<open>removeNotPresent\<close>. Listeners are started by goroutines, and every started listener
  gets a goroutine that waits for the stop channel and then closes the listener.

  Go maps are modelled as association lists with the operations of \<open>AList\<close>: lookup is
  \<open>map_of\<close>, assignment \<open>m[k] = v\<close> is \<open>AList.update\<close>, \<open>delete(m, k)\<close> is \<open>AList.delete\<close>.
  The order of the list stands for the order in which a \<open>range\<close> loop visits the map,
  which Go leaves unspecified.
\<close>

subsection \<open>Data\<close>

text \<open>
  A \<open>*proxy.Listener\<close> and a \<open>*connect.Service\<close> are pointers to objects of the consul
  library. A non-nil pointer is the number of the object (objects are numbered in the
  order of their construction), a possibly nil pointer is an \<open>option\<close>.
\<close>

type_synonym listenerRef = nat
type_synonym serviceRef = nat

text \<open>
  \<open>proxy.Config\<close>: the fields the engine reads. An upstream configuration is
  represented by the string \<open>uc.String()\<close>, the only thing the engine uses it for besides
  handing it to the library.
\<close>

record proxy_Config =
  ProxiedServiceName :: string
  Upstreams :: "string list"

text \<open>
  \<open>proxyState\<close>. The map \<open>proxyStates\<close> holds pointers to these records, one
  freshly allocated record per key and no pointer held anywhere else, so the model keeps the
  record in the map itself: a write through the pointer is an update of the record stored
  under the key.
\<close>

record proxyState =
  config :: proxy_Config
  listener :: "listenerRef option"
  upstreams :: "(string \<times> listenerRef) list"

type_synonym proxyConfigs = "(string \<times> proxy_Config) list"

text \<open>The two places of the source that call \<open>Close\<close> on a listener.\<close>

datatype site =
  Decommission \<comment> \<open>\<open>removeNotPresent\<close>, lines 153 and 155\<close>
  | StopWatcher \<comment> \<open>the goroutine of \<open>startListener\<close>, line 122\<close>

text \<open>The observable effects of the engine, in the order in which they happen.\<close>

datatype event =
  Provisioned string \<comment> \<open>a \<open>proxyState\<close> was created for the identifier (line 58)\<close>
  | ServiceCreate string \<comment> \<open>\<open>cfg.Service\<close> was called for the service name (line 65)\<close>
  | LogCannotCreate string \<comment> \<open>"cannot create service" was logged (line 67)\<close>
  | LogReady string \<comment> \<open>the one-time telemetry, readiness and TLS log lines (lines 71 to 86)\<close>
  | ListenerStart listenerRef \<comment> \<open>\<open>startListener\<close> launched \<open>l.Serve()\<close> (lines 111 to 118)\<close>
  | LogStartFailed string \<comment> \<open>"failed to start" was logged (lines 94 and 102)\<close>
  | Decommissioned string \<comment> \<open>"is going to be stop and removed" was logged for the identifier (line 152)\<close>
  | ListenerClose site listenerRef \<comment> \<open>\<open>Close\<close> was called on the listener\<close>
  | ServiceClose string \<comment> \<open>\<open>Close\<close> was called on the handle registered under the name\<close>
  | StopSignal \<comment> \<open>\<open>close(p.stopChan)\<close> (line 169)\<close>

text \<open>
  The run-time panics. The methods of \<open>connect.Service\<close> and \<open>proxy.Listener\<close> read
  fields of their receiver, so calling one on a nil pointer is a nil pointer dereference;
  writing a field through the nil \<open>*proxyState\<close> that a map returns for a missing key is
  one by the language; closing a closed channel panics by the language.
\<close>

datatype fault =
  NilService \<comment> \<open>a method of \<open>connect.Service\<close> called on nil\<close>
  | NilListener \<comment> \<open>\<open>Close\<close> called on a nil \<open>*proxy.Listener\<close>\<close>
  | NilProxyState \<comment> \<open>a field written through \<open>p.proxyStates[id]\<close> for a missing \<open>id\<close>\<close>
  | CloseOfClosedChannel

text \<open>
  \<open>Proxy\<close>. \<open>stopChan\<close> is \<open>True\<close> once the channel is closed. The fields after it are
  not fields of the Go struct: the effects so far, the numbers of the next listener and
  of the next call of \<open>cfg.Service\<close>, the goroutines of \<open>runServiceProxy\<close> that have not
  run yet (with the identifier and the handle they captured), the goroutines of
  \<open>startListener\<close> that wait for the stop channel (with their listener), and whether
  \<open>Serve\<close> is still in its loop.
\<close>

record Proxy =
  services :: "(string \<times> serviceRef option) list"
  proxyStates :: "(string \<times> proxyState) list"
  stopChan :: bool
  trace :: "event list"
  nextListener :: nat
  nextService :: nat
  publicTasks :: "(string \<times> serviceRef option) list"
  watchers :: "listenerRef list"
  serving :: bool

text \<open>
  A panic ends the process; the result keeps the state in which it happened.
\<close>

type_synonym result = "(fault \<times> Proxy) + Proxy"

text \<open>
  The outside world: whether the \<open>n\<close>-th call of \<open>cfg.Service\<close>, made for a given service
  name, succeeds. A handle that was created is taken to become ready, and its TLS
  configuration to hold a leaf certificate with a URI, as the library provides.
\<close>

type_synonym env = "nat \<Rightarrow> string \<Rightarrow> bool"

subsection \<open>Operations\<close>

definition New :: Proxy where
  "New = \<lparr>services = [], proxyStates = [], stopChan = False, trace = [],
     nextListener = 0, nextService = 0, publicTasks = [], watchers = [], serving = True\<rparr>"

text \<open>Recording effects, and sequencing two steps of which the first may panic.\<close>

definition emit :: "event list \<Rightarrow> Proxy \<Rightarrow> Proxy" where
  "emit evs p = p\<lparr>trace := trace p @ evs\<rparr>"

definition andThen :: "('e + 'a) \<Rightarrow> ('a \<Rightarrow> 'e + 'b) \<Rightarrow> 'e + 'b" where
  "andThen r f = (case r of Inl e \<Rightarrow> Inl e | Inr x \<Rightarrow> f x)"

text \<open>The panic in which a run ended, if it did.\<close>

definition faultOf :: "result \<Rightarrow> fault option" where
  "faultOf r = (case r of Inl (f, p) \<Rightarrow> Some f | Inr p \<Rightarrow> None)"

text \<open>\<open>proxy.NewPublicListener\<close> and \<open>proxy.NewUpstreamListener\<close>: a new listener object.\<close>

definition newListener :: "Proxy \<Rightarrow> listenerRef \<times> Proxy" where
  "newListener p = (nextListener p, p\<lparr>nextListener := Suc (nextListener p)\<rparr>)"

text \<open>
  \<open>startListener\<close> (lines 110 to 125): launches the goroutine that serves and the
  goroutine that waits for the stop channel, and returns nil.
\<close>

definition startListener :: "string \<Rightarrow> listenerRef \<Rightarrow> Proxy \<Rightarrow> string option \<times> Proxy" where
  "startListener name l p =
     (None, (emit [ListenerStart l] p)\<lparr>watchers := watchers p @ [l]\<rparr>)"

text \<open>
  Lines 63 to 87 of \<open>runServiceProxy\<close>: the handle for the configuration's service name,
  created and registered on first use. \<open>waitSVC\<close> calls \<open>svc.ReadyWait()\<close>, on nil when
  the creation failed.
\<close>

definition serviceFor :: "env \<Rightarrow> proxy_Config \<Rightarrow> Proxy \<Rightarrow> (fault \<times> Proxy) + (serviceRef option \<times> Proxy)" where
  "serviceFor env cfg p =
     (let name = ProxiedServiceName cfg in
      case map_of (services p) name of
        Some svc \<Rightarrow> Inr (svc, p)
      | None \<Rightarrow>
          (let ok = env (nextService p) name;
               svc = (if ok then Some (nextService p) else None);
               p1 = emit (ServiceCreate name # (if ok then [] else [LogCannotCreate name])) p;
               p2 = p1\<lparr>services := AList.update name svc (services p1),
                       nextService := Suc (nextService p1)\<rparr>
           in case svc of
                None \<Rightarrow> Inl (NilService, p2)
              | Some h \<Rightarrow> Inr (svc, emit [LogReady name] p2)))"

text \<open>Lines 99 to 106: the upstream listeners, started one after the other.\<close>

fun startUpstreams :: "string \<Rightarrow> string list \<Rightarrow> Proxy \<Rightarrow> result" where
  "startUpstreams pid [] p = Inr p"
| "startUpstreams pid (uc # ucs) p =
     (let (l, p1) = newListener p;
          (err, p2) = startListener uc l p1;
          p3 = (if err \<noteq> None then emit [LogStartFailed uc] p2 else p2)
      in case map_of (proxyStates p3) pid of
           None \<Rightarrow> Inl (NilProxyState, p3)
         | Some s \<Rightarrow>
             startUpstreams pid ucs
               (p3\<lparr>proxyStates :=
                     AList.update pid (s\<lparr>upstreams := AList.update uc l (upstreams s)\<rparr>)
                       (proxyStates p3)\<rparr>))"

text \<open>
  \<open>runServiceProxy\<close> (lines 54 to 107). The goroutine of lines 89 to 97 is put into
  \<open>publicTasks\<close>; it runs when the scheduler picks it.
\<close>

definition runServiceProxy :: "env \<Rightarrow> string \<Rightarrow> proxy_Config \<Rightarrow> Proxy \<Rightarrow> result" where
  "runServiceProxy env pid cfg p =
     (if map_of (proxyStates p) pid \<noteq> None then Inr p
      else
        (let p1 = emit [Provisioned pid]
                    (p\<lparr>proxyStates :=
                         AList.update pid \<lparr>config = cfg, listener = None, upstreams = []\<rparr>
                           (proxyStates p)\<rparr>)
         in andThen (serviceFor env cfg p1)
              (\<lambda>(svc, p2).
                 startUpstreams pid (Upstreams cfg)
                   (p2\<lparr>publicTasks := publicTasks p2 @ [(pid, svc)]\<rparr>))))"

text \<open>
  The goroutine of lines 89 to 97, run in one piece: it waits for the handle, builds and
  starts the public listener and stores it in the \<open>proxyState\<close> of its identifier.
\<close>

definition publicListenerTask :: "string \<Rightarrow> serviceRef option \<Rightarrow> Proxy \<Rightarrow> result" where
  "publicListenerTask pid svc p =
     (case svc of
        None \<Rightarrow> Inl (NilService, p)
      | Some h \<Rightarrow>
          (let (l, p1) = newListener p;
               (err, p2) = startListener ''public listener'' l p1;
               p3 = (if err \<noteq> None then emit [LogStartFailed ''public listener''] p2 else p2)
           in case map_of (proxyStates p3) pid of
                None \<Rightarrow> Inl (NilProxyState, p3)
              | Some s \<Rightarrow>
                  Inr (p3\<lparr>proxyStates :=
                            AList.update pid (s\<lparr>listener := Some l\<rparr>) (proxyStates p3)\<rparr>)))"

text \<open>\<open>removedProxies\<close> (lines 127 to 136): a copy of the map without the keys of \<open>new\<close>.\<close>

definition removedProxies :: "proxyConfigs \<Rightarrow> Proxy \<Rightarrow> (string \<times> proxyState) list" where
  "removedProxies new p = fold (\<lambda>(k, v) sc. AList.delete k sc) new (proxyStates p)"

text \<open>
  \<open>removedServices\<close> (lines 138 to 147): a copy of the registry without the service
  names of the configurations of \<open>new\<close>.
\<close>

definition removedServices :: "proxyConfigs \<Rightarrow> Proxy \<Rightarrow> (string \<times> serviceRef option) list" where
  "removedServices new p =
     fold (\<lambda>(k, v) sc. AList.delete (ProxiedServiceName v) sc) new (services p)"

text \<open>The first loop of \<open>removeNotPresent\<close> (lines 150 to 158).\<close>

fun closeProxies :: "(string \<times> proxyState) list \<Rightarrow> Proxy \<Rightarrow> result" where
  "closeProxies [] p = Inr p"
| "closeProxies ((pid, state) # rest) p =
     (let p1 = emit [Decommissioned pid] p in
      case listener state of
        None \<Rightarrow> Inl (NilListener, p1)
      | Some l \<Rightarrow>
          closeProxies rest
            ((emit (ListenerClose Decommission l #
                    map (\<lambda>(k, u). ListenerClose Decommission u) (upstreams state)) p1)
               \<lparr>proxyStates := AList.delete pid (proxyStates p1)\<rparr>))"

text \<open>The second loop of \<open>removeNotPresent\<close> (lines 159 to 163).\<close>

fun closeServices :: "(string \<times> serviceRef option) list \<Rightarrow> Proxy \<Rightarrow> result" where
  "closeServices [] p = Inr p"
| "closeServices ((name, service) # rest) p =
     (case service of
        None \<Rightarrow> Inl (NilService, p)
      | Some h \<Rightarrow>
          closeServices rest
            ((emit [ServiceClose name] p)\<lparr>services := AList.delete name (services p)\<rparr>))"

definition removeNotPresent :: "proxyConfigs \<Rightarrow> Proxy \<Rightarrow> result" where
  "removeNotPresent new p =
     andThen (closeProxies (removedProxies new p) p)
       (\<lambda>p1. closeServices (removedServices new p1) p1)"

text \<open>The loop of \<open>Serve\<close> over the configurations of a snapshot (lines 44 to 46).\<close>

fun provisionAll :: "env \<Rightarrow> proxyConfigs \<Rightarrow> Proxy \<Rightarrow> result" where
  "provisionAll env [] p = Inr p"
| "provisionAll env ((pid, cfg) # rest) p =
     andThen (runServiceProxy env pid cfg p) (provisionAll env rest)"

text \<open>The branch of \<open>Serve\<close> that has received a snapshot (lines 42 to 47).\<close>

definition applySnapshot :: "env \<Rightarrow> proxyConfigs \<Rightarrow> Proxy \<Rightarrow> result" where
  "applySnapshot env cfg p = andThen (provisionAll env cfg p) (removeNotPresent cfg)"

text \<open>The loop of \<open>Close\<close> (lines 170 to 172).\<close>

fun closeAll :: "(string \<times> serviceRef option) list \<Rightarrow> Proxy \<Rightarrow> result" where
  "closeAll [] p = Inr p"
| "closeAll ((name, svc) # rest) p =
     (case svc of
        None \<Rightarrow> Inl (NilService, p)
      | Some h \<Rightarrow> closeAll rest (emit [ServiceClose name] p))"

text \<open>\<open>Close\<close> (lines 168 to 173).\<close>

definition Close :: "Proxy \<Rightarrow> result" where
  "Close p =
     (if stopChan p then Inl (CloseOfClosedChannel, p)
      else closeAll (services p) (emit [StopSignal] (p\<lparr>stopChan := True\<rparr>)))"

text \<open>The goroutine of lines 120 to 123, once the stop channel is closed.\<close>

definition watcherTask :: "listenerRef \<Rightarrow> Proxy \<Rightarrow> Proxy" where
  "watcherTask l p = emit [ListenerClose StopWatcher l] p"

subsection \<open>The process\<close>

text \<open>
  What happens next in the process. The loop of \<open>Serve\<close> (lines 39 to 52) is a \<open>select\<close>
  with two cases: it receives a snapshot and applies it (\<open>RecvConfig\<close>), or it sees the
  closed stop channel and returns (\<open>RecvStop\<close>). Besides, the host calls \<open>Close\<close> from
  its own goroutine (\<open>CallClose\<close>, \<open>main.go\<close>), or the scheduler runs one of the waiting
  goroutines, given by its position. Each of these is taken to happen in one piece.
  Something that cannot happen in the state (a snapshot after \<open>Serve\<close> has returned, a
  watcher before the stop channel is closed, a goroutine that does not exist) leaves the
  state as it is. A run of the process is a list of such actions; it ends at the first
  panic.
\<close>

datatype action =
  RecvConfig proxyConfigs
  | RecvStop
  | CallClose
  | RunPublicTask nat
  | RunWatcher nat

definition dropAt :: "nat \<Rightarrow> 'a list \<Rightarrow> 'a list" where
  "dropAt k xs = take k xs @ drop (Suc k) xs"

fun step :: "env \<Rightarrow> action \<Rightarrow> Proxy \<Rightarrow> result" where
  "step env (RecvConfig cfg) p = (if serving p then applySnapshot env cfg p else Inr p)"
| "step env RecvStop p = Inr (if stopChan p then p\<lparr>serving := False\<rparr> else p)"
| "step env CallClose p = Close p"
| "step env (RunPublicTask k) p =
     (if k < length (publicTasks p)
      then publicListenerTask (fst (publicTasks p ! k)) (snd (publicTasks p ! k))
             (p\<lparr>publicTasks := dropAt k (publicTasks p)\<rparr>)
      else Inr p)"
| "step env (RunWatcher k) p =
     Inr (if stopChan p \<and> k < length (watchers p)
          then watcherTask (watchers p ! k) (p\<lparr>watchers := dropAt k (watchers p)\<rparr>)
          else p)"

fun run :: "env \<Rightarrow> action list \<Rightarrow> Proxy \<Rightarrow> result" where
  "run env [] p = Inr p"
| "run env (a # as) p = andThen (step env a p) (run env as)"

subsection \<open>Observations on runs\<close>

text \<open>The state in which a run ended, whether it returned or panicked.\<close>

definition finalState :: "result \<Rightarrow> Proxy" where
  "finalState r = (case r of Inl (f, p) \<Rightarrow> p | Inr p \<Rightarrow> p)"

text \<open>
  The actions of the goroutines that \<open>runServiceProxy\<close> and \<open>startListener\<close> launch, and
  all actions that do not belong to the loop of \<open>Serve\<close>.
\<close>

definition isBackground :: "action \<Rightarrow> bool" where
  "isBackground a = (case a of RunPublicTask k \<Rightarrow> True | RunWatcher k \<Rightarrow> True | _ \<Rightarrow> False)"


text \<open>An entry of \<open>proxyStates\<close> without its \<open>listener\<close> field.\<close>

definition exceptListener ::
    "string \<times> proxyState \<Rightarrow> string \<times> proxy_Config \<times> (string \<times> listenerRef) list" where
  "exceptListener e = (fst e, config (snd e), upstreams (snd e))"

text \<open>
  The keys of a Go map.
\<close>

definition keysOf :: "('k \<times> 'v) list \<Rightarrow> 'k set" where
  "keysOf al = fst ` set al"

text \<open>
  The service names that the configurations of a snapshot refer to.
\<close>

definition serviceNames :: "proxyConfigs \<Rightarrow> string set" where
  "serviceNames cfg = (\<lambda>kv. ProxiedServiceName (snd kv)) ` set cfg"

text \<open>
  How often a run has created a \<open>proxyState\<close> for an identifier, has logged the removal of one,
  has called \<open>cfg.Service\<close> for a service name, has closed the handle registered under one.
\<close>

definition provisioned :: "string \<Rightarrow> Proxy \<Rightarrow> nat" where
  "provisioned i p = count_list (trace p) (Provisioned i)"

definition decommissioned :: "string \<Rightarrow> Proxy \<Rightarrow> nat" where
  "decommissioned i p = count_list (trace p) (Decommissioned i)"

definition created :: "string \<Rightarrow> Proxy \<Rightarrow> nat" where
  "created n p = count_list (trace p) (ServiceCreate n)"

definition serviceClosed :: "string \<Rightarrow> Proxy \<Rightarrow> nat" where
  "serviceClosed n p = count_list (trace p) (ServiceClose n)"

text \<open>
  The effects that \<open>runServiceProxy\<close> can have, and those that \<open>removeNotPresent\<close> can have.
\<close>

definition provisioningEvent :: "event \<Rightarrow> bool" where
  "provisioningEvent e =
     (case e of Provisioned i \<Rightarrow> True | ServiceCreate n \<Rightarrow> True | LogCannotCreate n \<Rightarrow> True
      | LogReady n \<Rightarrow> True | ListenerStart l \<Rightarrow> True | _ \<Rightarrow> False)"

definition removalEvent :: "event \<Rightarrow> bool" where
  "removalEvent e =
     (case e of Decommissioned i \<Rightarrow> True | ListenerClose s l \<Rightarrow> s = Decommission
      | ServiceClose n \<Rightarrow> True | _ \<Rightarrow> False)"

text \<open>
  \<open>grows P p q\<close>: the effects of \<open>q\<close> are those of \<open>p\<close> followed by effects of kind \<open>P\<close>.
\<close>

definition grows :: "(event \<Rightarrow> bool) \<Rightarrow> Proxy \<Rightarrow> Proxy \<Rightarrow> bool" where
  "grows P p p' = (\<exists>evs. trace p' = trace p @ evs \<and> list_all P evs)"

text \<open>
  No key occurs twice in either map: what a Go map guarantees by construction.
\<close>

definition wf :: "Proxy \<Rightarrow> bool" where
  "wf p = (distinct (map fst (proxyStates p)) \<and> distinct (map fst (services p)))"

text \<open>Every effect except the log line of a failed listener start.\<close>

definition notStartFailed :: "event \<Rightarrow> bool" where
  "notStartFailed e = (case e of LogStartFailed n \<Rightarrow> False | _ \<Rightarrow> True)"

text \<open>
  How often a run has started a listener, and how often \<open>Close\<close> was called on it by the
  goroutine that waits for the stop channel, by \<open>removeNotPresent\<close>, and in all.
\<close>

definition started :: "listenerRef \<Rightarrow> Proxy \<Rightarrow> nat" where
  "started l p = count_list (trace p) (ListenerStart l)"

definition watcherClosed :: "listenerRef \<Rightarrow> Proxy \<Rightarrow> nat" where
  "watcherClosed l p = count_list (trace p) (ListenerClose StopWatcher l)"

definition syncClosed :: "listenerRef \<Rightarrow> Proxy \<Rightarrow> nat" where
  "syncClosed l p = count_list (trace p) (ListenerClose Decommission l)"

definition closeCalls :: "listenerRef \<Rightarrow> Proxy \<Rightarrow> nat" where
  "closeCalls l p = syncClosed l p + watcherClosed l p"

text \<open>The listeners that a \<open>proxyState\<close> holds, and those that the map holds.\<close>

definition refsOf :: "proxyState \<Rightarrow> listenerRef list" where
  "refsOf s = (case listener s of None \<Rightarrow> [] | Some l \<Rightarrow> [l]) @ map snd (upstreams s)"

definition refs :: "(string \<times> proxyState) list \<Rightarrow> listenerRef list" where
  "refs al = concat (map (\<lambda>kv. refsOf (snd kv)) al)"

text \<open>
  The bookkeeping of listeners: every listener built so far has been started once; it
  has one goroutine waiting for the stop channel or that goroutine has closed it; and it is
  held by at most one place of the map, or was closed at most once by \<open>removeNotPresent\<close>
  and is held nowhere.
\<close>

definition accounted :: "Proxy \<Rightarrow> bool" where
  "accounted p =
     (\<forall>l. count_list (watchers p) l + watcherClosed l p = started l p \<and>
          started l p = (if l < nextListener p then 1 else 0) \<and>
          count_list (refs (proxyStates p)) l + syncClosed l p \<le> started l p)"

definition listenerEvent :: "event \<Rightarrow> bool" where
  "listenerEvent e = (case e of ListenerStart l \<Rightarrow> True | ListenerClose s l \<Rightarrow> True | _ \<Rightarrow> False)"

text \<open>The schedule that lets every waiting goroutine of \<open>startListener\<close> run.\<close>

definition drain :: "Proxy \<Rightarrow> action list" where
  "drain p = replicate (length (watchers p)) (RunWatcher 0)"

text \<open>
  What a piece of a run may do to the registry entry of a service name \<open>N\<close>: it calls
  \<open>cfg.Service\<close> for \<open>N\<close> once if it registers \<open>N\<close> and not at all otherwise, it does not
  unregister \<open>N\<close>, and it keeps the keys of the registry distinct.
\<close>

definition registryStep :: "string \<Rightarrow> Proxy \<Rightarrow> Proxy \<Rightarrow> bool" where
  "registryStep N p q =
     (created N q = created N p +
        (if N \<in> keysOf (services q) \<and> N \<notin> keysOf (services p) then 1 else 0) \<and>
      (if N \<in> keysOf (services p) then N \<in> keysOf (services q) else True) \<and>
      (if distinct (map fst (services p)) then distinct (map fst (services q)) else True))"

text \<open>
  What a piece of provisioning may do for an identifier \<open>i\<close>: it creates a \<open>proxyState\<close>
  for \<open>i\<close> once if it adds the key \<open>i\<close> and not at all otherwise, it removes no key, it
  logs no removal, and it keeps the keys of the map distinct.
\<close>

definition provisionStep :: "string \<Rightarrow> Proxy \<Rightarrow> Proxy \<Rightarrow> bool" where
  "provisionStep i p q =
     (provisioned i q = provisioned i p +
        (if i \<in> keysOf (proxyStates q) \<and> i \<notin> keysOf (proxyStates p) then 1 else 0) \<and>
      decommissioned i q = decommissioned i p \<and>
      keysOf (proxyStates p) \<subseteq> keysOf (proxyStates q) \<and>
      (if distinct (map fst (proxyStates p)) then distinct (map fst (proxyStates q)) else True))"

subsection \<open>Concrete inputs\<close>

definition alwaysOK :: env where
  "alwaysOK n name = True"

definition neverOK :: env where
  "neverOK n name = False"

definition cfgOf :: "string \<Rightarrow> string list \<Rightarrow> proxy_Config" where
  "cfgOf name ups = \<lparr>ProxiedServiceName = name, Upstreams = ups\<rparr>"


text \<open>
  Two snapshots: instances \<open>A\<close> and \<open>B\<close> of service \<open>X\<close>, then \<open>B\<close> and a new
  instance \<open>C\<close> of service \<open>Y\<close>. \<open>startedAB\<close> is the engine after the first snapshot,
  \<open>withAB\<close> after the two goroutines have stored their public listeners, \<open>withBC\<close>
  after the second snapshot.
\<close>

definition snapAB :: proxyConfigs where
  "snapAB = [(''A'', cfgOf ''X'' [''u1'']), (''B'', cfgOf ''X'' [''u2''])]"

definition snapBC :: proxyConfigs where
  "snapBC = [(''B'', cfgOf ''X'' [''u2'']), (''C'', cfgOf ''Y'' [])]"

definition startedAB :: Proxy where
  "startedAB = finalState (applySnapshot alwaysOK snapAB New)"

definition withAB :: Proxy where
  "withAB = finalState (run alwaysOK [RunPublicTask 0, RunPublicTask 0] startedAB)"

definition withBC :: Proxy where
  "withBC = finalState (applySnapshot alwaysOK snapBC withAB)"


text \<open>
  Instance \<open>A\<close> with one upstream is provisioned, its public listener is stored, the
  empty snapshot removes it, and the host calls \<open>Close\<close>; then all waiting goroutines run.
\<close>

definition stoppedAfterRemoval :: Proxy where
  "stoppedAfterRemoval =
     finalState (run alwaysOK [RecvConfig [(''A'', cfgOf ''X'' [''u1''])], RunPublicTask 0,
                   RecvConfig [], CallClose] New)"

definition afterWatchers :: Proxy where
  "afterWatchers = finalState (run alwaysOK (drain stoppedAfterRemoval) stoppedAfterRemoval)"

text \<open>A third snapshot, which removes \<open>B\<close> and \<open>C\<close>; the public listener of \<open>C\<close> is not stored yet.\<close>

definition snapD :: proxyConfigs where
  "snapD = [(''D'', cfgOf ''X'' [])]"

section \<open>Basic facts\<close>

lemma andThen_simps [simp]:
  "andThen (Inl e) f = Inl e" "andThen (Inr x) f = f x"
  by (simp_all add: andThen_def)

lemma andThen_Inr_iff: "andThen r f = Inr y \<longleftrightarrow> (\<exists>x. r = Inr x \<and> f x = Inr y)"
  by (cases r) simp_all

lemma finalState_simps [simp]:
  "finalState (Inl (f, p)) = p" "finalState (Inr p) = p"
  by (simp_all add: finalState_def)

lemma finalState_andThen:
  "finalState (andThen r f) = (case r of Inl (e, p) \<Rightarrow> p | Inr p \<Rightarrow> finalState (f p))"
  by (cases r) auto

lemma faultOf_simps [simp]:
  "faultOf (Inl (f, p)) = Some f" "faultOf (Inr p) = None"
  by (simp_all add: faultOf_def)

lemma emit_fields [simp]:
  "services (emit evs p) = services p"
  "proxyStates (emit evs p) = proxyStates p"
  "stopChan (emit evs p) = stopChan p"
  "trace (emit evs p) = trace p @ evs"
  "nextListener (emit evs p) = nextListener p"
  "nextService (emit evs p) = nextService p"
  "publicTasks (emit evs p) = publicTasks p"
  "watchers (emit evs p) = watchers p"
  "serving (emit evs p) = serving p"
  by (simp_all add: emit_def)

lemma update_keys_present:
  "map_of al k = Some v \<Longrightarrow> map fst (AList.update k w al) = map fst al"
  by (induction al) auto

section \<open>Shutdown\<close>

lemma closeAll_ok:
  "\<forall>(n, s) \<in> set xs. s \<noteq> None \<Longrightarrow>
   \<exists>p'. closeAll xs p = Inr p' \<and> stopChan p' = stopChan p \<and> services p' = services p"
proof (induction xs arbitrary: p)
  case Nil
  then show ?case by simp
next
  case (Cons x xs)
  obtain n s where x: "x = (n, s)" by (cases x)
  with Cons.prems obtain h where s: "s = Some h" by auto
  from Cons.prems have "\<forall>(n, s) \<in> set xs. s \<noteq> None" by simp
  from Cons.IH [OF this, of "emit [ServiceClose n] p"] show ?case
    by (simp add: x s)
qed

text \<open>
  C5, as the code has it. \<open>Close\<close> closes the stop channel with a plain \<open>close\<close>, with
  no guard; its comment asks for a single call. Called on an engine whose stop channel is
  open and whose registry holds no nil handle, it closes the channel and returns, and a
  second call then panics on the closed channel.
\<close>

theorem Close_once:
  assumes "\<not> stopChan p" and "\<forall>(n, s) \<in> set (services p). s \<noteq> None"
  shows "\<exists>p'. Close p = Inr p' \<and> stopChan p' \<and> faultOf (Close p') = Some CloseOfClosedChannel"
proof -
  from closeAll_ok [OF assms(2), of "emit [StopSignal] (p\<lparr>stopChan := True\<rparr>)"]
  obtain p' where "closeAll (services p) (emit [StopSignal] (p\<lparr>stopChan := True\<rparr>)) = Inr p'"
    and "stopChan p'" by auto
  with assms(1) show ?thesis by (auto simp add: Close_def)
qed

text \<open>The same for a new engine.\<close>

theorem Close_once_witness:
  "\<exists>p'. Close New = Inr p' \<and> stopChan p' \<and> faultOf (Close p') = Some CloseOfClosedChannel"
  using Close_once [of New] by (simp add: New_def)

text \<open>
  C5 as stated fails: two calls of \<open>Close\<close> on a new engine end in the panic of
  closing a closed channel.
\<close>

theorem Close_twice_counterexample:
  "faultOf (run alwaysOK [CallClose, CallClose] New) = Some CloseOfClosedChannel"
  by (simp add: New_def Close_def)

section \<open>Failures while a snapshot is applied\<close>

text \<open>
  C6 at a failing input: the first snapshot holds one instance and \<open>cfg.Service\<close>
  fails. \<open>runServiceProxy\<close> logs the error, registers the nil handle and goes on to
  \<open>waitSVC\<close>, which calls \<open>ReadyWait\<close> on the nil handle: the process panics instead of
  going on in a degraded state.
\<close>

theorem failed_creation_panics:
  "faultOf (run neverOK [RecvConfig [(''A'', cfgOf ''X'' [])]] New) = Some NilService"
  by (simp add: New_def applySnapshot_def runServiceProxy_def serviceFor_def neverOK_def
      cfgOf_def Let_def)

text \<open>
  C7 at a failing input: instance \<open>A\<close> is provisioned, and the next snapshot is empty
  before the goroutine that starts the public listener has run. \<open>removeNotPresent\<close> calls
  \<open>Close\<close> on the \<open>listener\<close> field without testing it, here on nil.
\<close>

theorem decommission_unrecorded_panics:
  "faultOf (run alwaysOK [RecvConfig [(''A'', cfgOf ''X'' [])], RecvConfig []] New) =
     Some NilListener"
  by (simp add: New_def applySnapshot_def runServiceProxy_def serviceFor_def alwaysOK_def
      cfgOf_def Let_def removeNotPresent_def removedProxies_def removedServices_def)

section \<open>What the goroutines write\<close>

lemma update_exceptListener:
  "map_of al k = Some s \<Longrightarrow>
   map exceptListener (AList.update k (s\<lparr>listener := x\<rparr>) al) = map exceptListener al"
  by (induction al) (auto simp add: exceptListener_def)

lemma publicListenerTask_maps:
  "services (finalState (publicListenerTask pid svc p)) = services p \<and>
   map exceptListener (proxyStates (finalState (publicListenerTask pid svc p))) =
     map exceptListener (proxyStates p)"
  by (simp add: publicListenerTask_def newListener_def startListener_def update_exceptListener
      split: option.split)





section \<open>Traces and keys\<close>

lemma Inr_finalState: "faultOf r = None \<Longrightarrow> r = Inr (finalState r)"
  by (cases r) auto

lemma grows_refl [simp]: "grows P p p"
  by (simp add: grows_def)

lemma grows_trans: "grows P p q \<Longrightarrow> grows P q r \<Longrightarrow> grows P p r"
  by (auto simp add: grows_def)

lemma grows_count: "grows P p q \<Longrightarrow> \<not> P e \<Longrightarrow> count_list (trace q) e = count_list (trace p) e"
  by (auto simp add: grows_def list_all_iff)

lemma grows_emit: "list_all P evs \<Longrightarrow> grows P p (emit evs p)"
  by (simp add: grows_def)

lemma keysOf_simps [simp]:
  "keysOf [] = {}" "keysOf (kv # al) = insert (fst kv) (keysOf al)"
  by (simp_all add: keysOf_def)

lemma map_of_None_keysOf: "map_of al k = None \<longleftrightarrow> k \<notin> keysOf al"
  by (simp add: keysOf_def map_of_eq_None_iff)

lemma keysOf_update [simp]: "keysOf (AList.update k v al) = insert k (keysOf al)"
  by (simp add: keysOf_def dom_update)

lemma keysOf_map_fst: "map fst al = map fst bl \<Longrightarrow> keysOf al = keysOf bl"
  by (metis keysOf_def set_map)

lemma keysOf_filter: "keysOf (filter (\<lambda>kv. fst kv \<in> K) al) = keysOf al \<inter> K"
  by (auto simp add: keysOf_def)

lemma map_of_filter_keys:
  "map_of (filter (\<lambda>kv. fst kv \<in> K) al) k = (if k \<in> K then map_of al k else None)"
  by (induction al) auto

lemma distinct_filter_keys:
  "distinct (map fst al) \<Longrightarrow> distinct (map fst (filter P al))"
  by (simp add: distinct_map_filter)

lemma distinct_count_le_1: "distinct xs \<Longrightarrow> count_list xs x \<le> 1"
  by (induction xs) auto

lemma count_list_map_other: "(\<And>x. f x \<noteq> e) \<Longrightarrow> count_list (map f xs) e = 0"
  by (induction xs) auto

lemma emit_emit: "emit evs (emit evs' p) = emit (evs' @ evs) p"
  by (simp add: emit_def)

lemma provisioning_not_removal:
  "\<not> provisioningEvent (Decommissioned i)" "\<not> provisioningEvent (ServiceClose N)"
  "\<not> removalEvent (Provisioned i)" "\<not> removalEvent (ServiceCreate N)"
  by (simp_all add: provisioningEvent_def removalEvent_def)

section \<open>Provisioning\<close>

lemma startUpstreams_Inr:
  "startUpstreams pid ucs p = Inr p' \<Longrightarrow>
     map fst (proxyStates p') = map fst (proxyStates p) \<and> services p' = services p \<and>
     stopChan p' = stopChan p \<and> serving p' = serving p \<and> publicTasks p' = publicTasks p \<and>
     nextService p' = nextService p \<and> nextListener p' = nextListener p + length ucs \<and>
     trace p' = trace p @ map ListenerStart [nextListener p..<nextListener p'] \<and>
     watchers p' = watchers p @ [nextListener p..<nextListener p']"
proof (induction ucs arbitrary: p)
  case Nil
  then show ?case by simp
next
  case (Cons uc ucs)
  let ?q = "(emit [ListenerStart (nextListener p)] (p\<lparr>nextListener := Suc (nextListener p)\<rparr>))
              \<lparr>watchers := watchers p @ [nextListener p]\<rparr>"
  from Cons.prems obtain s where s: "map_of (proxyStates p) pid = Some s"
    and r: "startUpstreams pid ucs
              (?q\<lparr>proxyStates := AList.update pid (s\<lparr>upstreams := AList.update uc (nextListener p) (upstreams s)\<rparr>)
                     (proxyStates p)\<rparr>) = Inr p'"
    by (auto simp add: newListener_def startListener_def split: option.splits)
  from Cons.IH [OF r] s show ?case
    by (simp add: update_keys_present upt_conv_Cons del: upt_Suc)
qed

lemma startUpstreams_grows:
  "startUpstreams pid ucs p = Inr p' \<Longrightarrow> grows provisioningEvent p p'"
  by (drule startUpstreams_Inr) (simp add: grows_def list_all_iff provisioningEvent_def)

lemma serviceFor_cases:
  assumes "serviceFor env cfg p = Inr (svc, p')"
  obtains (found) "map_of (services p) (ProxiedServiceName cfg) = Some svc" "p' = p"
  | (created) "ProxiedServiceName cfg \<notin> keysOf (services p)" "svc = Some (nextService p)"
      "p' = emit [LogReady (ProxiedServiceName cfg)]
              ((emit [ServiceCreate (ProxiedServiceName cfg)] p)
                 \<lparr>services := AList.update (ProxiedServiceName cfg) svc (services p),
                   nextService := Suc (nextService p)\<rparr>)"
proof (cases "map_of (services p) (ProxiedServiceName cfg)")
  case (Some s)
  with assms have "s = svc" "p' = p"
    by (simp_all add: serviceFor_def)
  with Some show ?thesis by (intro found) simp_all
next
  case None
  then have k: "ProxiedServiceName cfg \<notin> keysOf (services p)"
    by (simp add: map_of_None_keysOf)
  show ?thesis
  proof (cases "env (nextService p) (ProxiedServiceName cfg)")
    case True
    with None assms have "svc = Some (nextService p)"
      and "p' = emit [LogReady (ProxiedServiceName cfg)]
              ((emit [ServiceCreate (ProxiedServiceName cfg)] p)
                 \<lparr>services := AList.update (ProxiedServiceName cfg) svc (services p),
                   nextService := Suc (nextService p)\<rparr>)"
      by (auto simp add: serviceFor_def Let_def)
    with k show ?thesis by (rule created)
  next
    case False
    with None assms show ?thesis
      by (simp add: serviceFor_def Let_def)
  qed
qed

lemma runServiceProxy_cases:
  assumes "runServiceProxy env pid cfg p = Inr p'"
  obtains (present) "pid \<in> keysOf (proxyStates p)" "p' = p"
  | (fresh) svc p2 where "pid \<notin> keysOf (proxyStates p)"
      "serviceFor env cfg
         (emit [Provisioned pid]
            (p\<lparr>proxyStates :=
                 AList.update pid \<lparr>config = cfg, listener = None, upstreams = []\<rparr>
                   (proxyStates p)\<rparr>)) = Inr (svc, p2)"
      "startUpstreams pid (Upstreams cfg) (p2\<lparr>publicTasks := publicTasks p2 @ [(pid, svc)]\<rparr>) = Inr p'"
proof (cases "map_of (proxyStates p) pid")
  case (Some s)
  then have "pid \<in> keysOf (proxyStates p)"
    using map_of_None_keysOf [of "proxyStates p" pid] by simp
  moreover from Some assms have "p' = p"
    by (simp add: runServiceProxy_def)
  ultimately show ?thesis by (rule present)
next
  case None
  then have k: "pid \<notin> keysOf (proxyStates p)"
    by (simp add: map_of_None_keysOf)
  let ?p1 = "emit [Provisioned pid]
            (p\<lparr>proxyStates :=
                 AList.update pid \<lparr>config = cfg, listener = None, upstreams = []\<rparr>
                   (proxyStates p)\<rparr>)"
  from None assms obtain svc p2 where "serviceFor env cfg ?p1 = Inr (svc, p2)"
    and "startUpstreams pid (Upstreams cfg) (p2\<lparr>publicTasks := publicTasks p2 @ [(pid, svc)]\<rparr>) = Inr p'"
    by (auto simp add: runServiceProxy_def Let_def andThen_Inr_iff)
  with k show ?thesis by (rule fresh)
qed

lemma serviceFor_facts:
  assumes "serviceFor env cfg p = Inr (svc, p')"
  shows "proxyStates p' = proxyStates p \<and> stopChan p' = stopChan p \<and> serving p' = serving p \<and>
    publicTasks p' = publicTasks p \<and> watchers p' = watchers p \<and> nextListener p' = nextListener p \<and>
    (distinct (map fst (services p)) \<longrightarrow> distinct (map fst (services p'))) \<and>
    keysOf (services p') = insert (ProxiedServiceName cfg) (keysOf (services p)) \<and>
    (\<forall>N. N \<in> keysOf (services p) \<longrightarrow> map_of (services p') N = map_of (services p) N) \<and>
    (\<forall>i. provisioned i p' = provisioned i p) \<and>
    (\<forall>N. created N p' = created N p +
       (if N \<in> keysOf (services p') \<and> N \<notin> keysOf (services p) then 1 else 0)) \<and>
    grows provisioningEvent p p'"
  using assms
proof (cases rule: serviceFor_cases)
  case found
  then have "ProxiedServiceName cfg \<in> keysOf (services p)"
    using map_of_None_keysOf [of "services p" "ProxiedServiceName cfg"] by simp
  with found show ?thesis by (simp add: insert_absorb)
next
  case created
  then show ?thesis
    by (auto simp add: distinct_update provisioned_def created_def update_conv'
        grows_def provisioningEvent_def)
qed

lemma runServiceProxy_conj:
  assumes "runServiceProxy env pid cfg p = Inr p'"
  shows "keysOf (proxyStates p') = insert pid (keysOf (proxyStates p)) \<and>
    (distinct (map fst (proxyStates p)) \<longrightarrow> distinct (map fst (proxyStates p'))) \<and>
    (distinct (map fst (services p)) \<longrightarrow> distinct (map fst (services p'))) \<and>
    keysOf (services p) \<subseteq> keysOf (services p') \<and>
    keysOf (services p') \<subseteq> insert (ProxiedServiceName cfg) (keysOf (services p)) \<and>
    (\<forall>N. N \<in> keysOf (services p) \<longrightarrow> map_of (services p') N = map_of (services p) N) \<and>
    (\<forall>i. provisioned i p' = provisioned i p +
       (if i = pid \<and> pid \<notin> keysOf (proxyStates p) then 1 else 0)) \<and>
    (\<forall>N. created N p' = created N p +
       (if N \<in> keysOf (services p') \<and> N \<notin> keysOf (services p) then 1 else 0)) \<and>
    grows provisioningEvent p p' \<and> stopChan p' = stopChan p \<and> serving p' = serving p"
  using assms
proof (cases rule: runServiceProxy_cases)
  case present
  then show ?thesis by (auto simp add: insert_absorb)
next
  case (fresh svc p2)
  let ?p1 = "emit [Provisioned pid]
            (p\<lparr>proxyStates :=
                 AList.update pid \<lparr>config = cfg, listener = None, upstreams = []\<rparr>
                   (proxyStates p)\<rparr>)"
  let ?p3 = "p2\<lparr>publicTasks := publicTasks p2 @ [(pid, svc)]\<rparr>"
  note s = serviceFor_facts [OF fresh(2)]
  note u = startUpstreams_Inr [OF fresh(3)]
  have g1: "grows provisioningEvent p ?p1"
    by (simp add: grows_def provisioningEvent_def)
  have g2: "grows provisioningEvent ?p1 ?p3"
    using s by (simp add: grows_def)
  have g3: "grows provisioningEvent ?p3 p'"
    using fresh(3) by (rule startUpstreams_grows)
  have g: "grows provisioningEvent p p'"
    using g1 g2 g3 by (blast intro: grows_trans)
  have "map fst (proxyStates p') = map fst (proxyStates ?p1)"
    using u s by simp
  then have k: "keysOf (proxyStates p') = insert pid (keysOf (proxyStates p))"
    and d1: "distinct (map fst (proxyStates p)) \<longrightarrow> distinct (map fst (proxyStates p'))"
    using keysOf_map_fst [of "proxyStates p'" "proxyStates ?p1"] by (simp_all add: distinct_update)
  have sv: "services p' = services p2" using u by simp
  have d2: "distinct (map fst (services p)) \<longrightarrow> distinct (map fst (services p'))"
    using s sv by simp
  have k2: "keysOf (services p') = insert (ProxiedServiceName cfg) (keysOf (services p))"
    using s sv by simp
  have m: "\<forall>N. N \<in> keysOf (services p) \<longrightarrow> map_of (services p') N = map_of (services p) N"
    using s sv by simp
  have "\<forall>i. provisioned i p' = provisioned i ?p1"
    using u s by (simp add: provisioned_def count_list_map_other)
  then have pr: "\<forall>i. provisioned i p' = provisioned i p + (if i = pid \<and> pid \<notin> keysOf (proxyStates p) then 1 else 0)"
    using fresh(1) by (simp add: provisioned_def)
  have "\<forall>N. created N p' = created N p2"
    using u by (simp add: created_def count_list_map_other)
  then have cr: "\<forall>N. created N p' = created N p +
       (if N \<in> keysOf (services p') \<and> N \<notin> keysOf (services p) then 1 else 0)"
    using s sv by (simp add: created_def)
  have st: "stopChan p' = stopChan p \<and> serving p' = serving p"
    using u s by simp
  from k2 have sub: "keysOf (services p) \<subseteq> keysOf (services p') \<and>
    keysOf (services p') \<subseteq> insert (ProxiedServiceName cfg) (keysOf (services p))" by auto
  from sub have sub1: "keysOf (services p) \<subseteq> keysOf (services p')"
    and sub2: "keysOf (services p') \<subseteq> insert (ProxiedServiceName cfg) (keysOf (services p))"
    by simp_all
  from st have st1: "stopChan p' = stopChan p" and st2: "serving p' = serving p"
    by simp_all
  show ?thesis
    by (intro conjI) (fact k d1 d2 sub1 sub2 m pr cr g st1 st2)+
qed

lemma runServiceProxy_facts:
  assumes "runServiceProxy env pid cfg p = Inr p'"
  shows "keysOf (proxyStates p') = insert pid (keysOf (proxyStates p))"
    and "distinct (map fst (proxyStates p)) \<Longrightarrow> distinct (map fst (proxyStates p'))"
    and "distinct (map fst (services p)) \<Longrightarrow> distinct (map fst (services p'))"
    and "keysOf (services p) \<subseteq> keysOf (services p')"
    and "keysOf (services p') \<subseteq> insert (ProxiedServiceName cfg) (keysOf (services p))"
    and "N \<in> keysOf (services p) \<Longrightarrow> map_of (services p') N = map_of (services p) N"
    and "provisioned i p' = provisioned i p +
       (if i = pid \<and> pid \<notin> keysOf (proxyStates p) then 1 else 0)"
    and "created N p' = created N p +
       (if N \<in> keysOf (services p') \<and> N \<notin> keysOf (services p) then 1 else 0)"
    and "grows provisioningEvent p p'"
    and "stopChan p' = stopChan p" and "serving p' = serving p"
  using runServiceProxy_conj [OF assms] by simp_all

lemma provisionAll_conj:
  "provisionAll env cfgs p = Inr p' \<Longrightarrow>
    keysOf (proxyStates p') = keysOf cfgs \<union> keysOf (proxyStates p) \<and>
    (distinct (map fst (proxyStates p)) \<longrightarrow> distinct (map fst (proxyStates p'))) \<and>
    (distinct (map fst (services p)) \<longrightarrow> distinct (map fst (services p'))) \<and>
    keysOf (services p) \<subseteq> keysOf (services p') \<and>
    keysOf (services p') \<subseteq> serviceNames cfgs \<union> keysOf (services p) \<and>
    (\<forall>N. N \<in> keysOf (services p) \<longrightarrow> map_of (services p') N = map_of (services p) N) \<and>
    (\<forall>i. provisioned i p' = provisioned i p +
       (if i \<in> keysOf cfgs \<and> i \<notin> keysOf (proxyStates p) then 1 else 0)) \<and>
    (\<forall>N. created N p' = created N p +
       (if N \<in> keysOf (services p') \<and> N \<notin> keysOf (services p) then 1 else 0)) \<and>
    grows provisioningEvent p p' \<and> stopChan p' = stopChan p \<and> serving p' = serving p"
proof (induction cfgs arbitrary: p)
  case Nil
  then show ?case by (simp add: serviceNames_def)
next
  case (Cons x cfgs)
  obtain pid cfg where x: "x = (pid, cfg)" by (cases x)
  from Cons.prems obtain p1 where r: "runServiceProxy env pid cfg p = Inr p1"
    and a: "provisionAll env cfgs p1 = Inr p'"
    by (auto simp add: x andThen_Inr_iff)
  note f = runServiceProxy_facts [OF r]
  note h = Cons.IH [OF a]
  from h have hk: "keysOf (proxyStates p') = keysOf cfgs \<union> keysOf (proxyStates p1)"
    and hd1: "distinct (map fst (proxyStates p1)) \<longrightarrow> distinct (map fst (proxyStates p'))"
    and hd2: "distinct (map fst (services p1)) \<longrightarrow> distinct (map fst (services p'))"
    and hs1: "keysOf (services p1) \<subseteq> keysOf (services p')"
    and hs2: "keysOf (services p') \<subseteq> serviceNames cfgs \<union> keysOf (services p1)"
    and hm: "\<forall>N. N \<in> keysOf (services p1) \<longrightarrow> map_of (services p') N = map_of (services p1) N"
    and hp: "\<forall>i. provisioned i p' = provisioned i p1 +
       (if i \<in> keysOf cfgs \<and> i \<notin> keysOf (proxyStates p1) then 1 else 0)"
    and hc: "\<forall>N. created N p' = created N p1 +
       (if N \<in> keysOf (services p') \<and> N \<notin> keysOf (services p1) then 1 else 0)"
    and hg: "grows provisioningEvent p1 p'"
    and hst: "stopChan p' = stopChan p1" "serving p' = serving p1"
    by simp_all
  have k: "keysOf (proxyStates p') = keysOf (x # cfgs) \<union> keysOf (proxyStates p)"
    using f(1) hk by (simp add: x)
  have d1: "distinct (map fst (proxyStates p)) \<longrightarrow> distinct (map fst (proxyStates p'))"
    using f(2) hd1 by simp
  have d2: "distinct (map fst (services p)) \<longrightarrow> distinct (map fst (services p'))"
    using f(3) hd2 by simp
  have sub1: "keysOf (services p) \<subseteq> keysOf (services p')"
    using f(4) hs1 by (rule subset_trans)
  have sub2: "keysOf (services p') \<subseteq> serviceNames (x # cfgs) \<union> keysOf (services p)"
    using f(5) hs2 by (auto simp add: x serviceNames_def)
  have m: "\<forall>N. N \<in> keysOf (services p) \<longrightarrow> map_of (services p') N = map_of (services p) N"
  proof (intro allI impI)
    fix N assume n: "N \<in> keysOf (services p)"
    with f(4) have "N \<in> keysOf (services p1)" by (rule subsetD)
    with hm have "map_of (services p') N = map_of (services p1) N" by simp
    also from n have "\<dots> = map_of (services p) N" by (rule f(6))
    finally show "map_of (services p') N = map_of (services p) N" .
  qed
  have pr: "\<forall>i. provisioned i p' = provisioned i p +
       (if i \<in> keysOf (x # cfgs) \<and> i \<notin> keysOf (proxyStates p) then 1 else 0)"
  proof
    fix i
    from hp have "provisioned i p' = provisioned i p1 +
       (if i \<in> keysOf cfgs \<and> i \<notin> keysOf (proxyStates p1) then 1 else 0)" by (rule spec)
    with f(7) [of i] f(1) show "provisioned i p' = provisioned i p +
       (if i \<in> keysOf (x # cfgs) \<and> i \<notin> keysOf (proxyStates p) then 1 else 0)"
      by (auto simp add: x)
  qed
  have cr: "\<forall>N. created N p' = created N p +
       (if N \<in> keysOf (services p') \<and> N \<notin> keysOf (services p) then 1 else 0)"
  proof
    fix N
    from hc have "created N p' = created N p1 +
       (if N \<in> keysOf (services p') \<and> N \<notin> keysOf (services p1) then 1 else 0)" by (rule spec)
    with f(8) [of N] f(4) hs1 show "created N p' = created N p +
       (if N \<in> keysOf (services p') \<and> N \<notin> keysOf (services p) then 1 else 0)"
      by auto
  qed
  have g: "grows provisioningEvent p p'"
    using f(9) hg by (rule grows_trans)
  have st1: "stopChan p' = stopChan p" and st2: "serving p' = serving p"
    using f(10,11) hst by simp_all
  show ?case
    by (intro conjI) (fact k d1 d2 sub1 sub2 m pr cr g st1 st2)+
qed

lemma provisionAll_facts:
  assumes "provisionAll env cfgs p = Inr p'"
  shows "keysOf (proxyStates p') = keysOf cfgs \<union> keysOf (proxyStates p)"
    and "distinct (map fst (proxyStates p)) \<Longrightarrow> distinct (map fst (proxyStates p'))"
    and "distinct (map fst (services p)) \<Longrightarrow> distinct (map fst (services p'))"
    and "keysOf (services p) \<subseteq> keysOf (services p')"
    and "keysOf (services p') \<subseteq> serviceNames cfgs \<union> keysOf (services p)"
    and "N \<in> keysOf (services p) \<Longrightarrow> map_of (services p') N = map_of (services p) N"
    and "provisioned i p' = provisioned i p +
       (if i \<in> keysOf cfgs \<and> i \<notin> keysOf (proxyStates p) then 1 else 0)"
    and "created N p' = created N p +
       (if N \<in> keysOf (services p') \<and> N \<notin> keysOf (services p) then 1 else 0)"
    and "grows provisioningEvent p p'"
    and "stopChan p' = stopChan p" and "serving p' = serving p"
  using provisionAll_conj [OF assms] by simp_all

section \<open>Decommissioning\<close>

lemma fold_delete_filter:
  "fold (\<lambda>x sc. AList.delete (f x) sc) xs al = filter (\<lambda>kv. fst kv \<notin> f ` set xs) al"
proof (induction xs arbitrary: al)
  case Nil
  then show ?case by simp
next
  case (Cons x xs)
  have "fold (\<lambda>x sc. AList.delete (f x) sc) (x # xs) al =
      filter (\<lambda>kv. fst kv \<notin> f ` set xs) (AList.delete (f x) al)"
    by (simp add: Cons.IH)
  also have "\<dots> = filter (\<lambda>kv. fst kv \<notin> f ` set (x # xs)) al"
    by (auto simp add: AList.delete_eq split_def intro!: filter_cong)
  finally show ?case .
qed

lemma removedProxies_filter:
  "removedProxies new p = filter (\<lambda>kv. fst kv \<notin> keysOf new) (proxyStates p)"
  using fold_delete_filter [of fst new "proxyStates p"]
  by (simp add: removedProxies_def keysOf_def split_def)

lemma removedServices_filter:
  "removedServices new p = filter (\<lambda>kv. fst kv \<notin> serviceNames new) (services p)"
  using fold_delete_filter [of "\<lambda>kv. ProxiedServiceName (snd kv)" new "services p"]
  by (simp add: removedServices_def serviceNames_def split_def)

lemma filter_delete_keys:
  "filter (\<lambda>kv. fst kv \<notin> K) (AList.delete k al) = filter (\<lambda>kv. fst kv \<notin> insert k K) al"
  by (auto simp add: AList.delete_eq split_def intro!: filter_cong)

lemma closeProxies_conj:
  "closeProxies xs p = Inr p' \<Longrightarrow>
     proxyStates p' = filter (\<lambda>kv. fst kv \<notin> keysOf xs) (proxyStates p) \<and>
     services p' = services p \<and> stopChan p' = stopChan p \<and> serving p' = serving p \<and>
     publicTasks p' = publicTasks p \<and> watchers p' = watchers p \<and>
     nextListener p' = nextListener p \<and> nextService p' = nextService p \<and>
     (\<forall>i. decommissioned i p' = decommissioned i p + count_list (map fst xs) i) \<and>
     (\<forall>N. serviceClosed N p' = serviceClosed N p) \<and>
     grows removalEvent p p'"
proof (induction xs arbitrary: p)
  case Nil
  then show ?case by simp
next
  case (Cons x xs)
  obtain pid state where x: "x = (pid, state)" by (cases x)
  from Cons.prems obtain l where l: "listener state = Some l"
    by (cases "listener state") (simp_all add: x)
  let ?q = "(emit (ListenerClose Decommission l #
                    map (\<lambda>(k, u). ListenerClose Decommission u) (upstreams state))
               (emit [Decommissioned pid] p))
               \<lparr>proxyStates := AList.delete pid (proxyStates p)\<rparr>"
  from Cons.prems l have r: "closeProxies xs ?q = Inr p'"
    by (simp add: x)
  have c: "count_list (map (\<lambda>(k, u). ListenerClose Decommission u) (upstreams state)) (Decommissioned i) = 0"
    "count_list (map (\<lambda>(k, u). ListenerClose Decommission u) (upstreams state)) (ServiceClose N) = 0" for i N
    by (simp_all add: split_def count_list_map_other)
  have "list_all removalEvent (map (\<lambda>(k, u). ListenerClose Decommission u) (upstreams state))"
    by (simp add: list_all_iff removalEvent_def split_def)
  then have g: "grows removalEvent p ?q"
    by (simp add: grows_def removalEvent_def)
  from Cons.IH [OF r] g show ?case
    by (auto simp add: x filter_delete_keys decommissioned_def serviceClosed_def c intro: grows_trans)
qed

lemma closeServices_conj:
  "closeServices xs p = Inr p' \<Longrightarrow>
     services p' = filter (\<lambda>kv. fst kv \<notin> keysOf xs) (services p) \<and>
     proxyStates p' = proxyStates p \<and> stopChan p' = stopChan p \<and> serving p' = serving p \<and>
     publicTasks p' = publicTasks p \<and> watchers p' = watchers p \<and>
     nextListener p' = nextListener p \<and> nextService p' = nextService p \<and>
     (\<forall>N. serviceClosed N p' = serviceClosed N p + count_list (map fst xs) N) \<and>
     (\<forall>i. decommissioned i p' = decommissioned i p) \<and>
     grows removalEvent p p'"
proof (induction xs arbitrary: p)
  case Nil
  then show ?case by simp
next
  case (Cons x xs)
  obtain name service where x: "x = (name, service)" by (cases x)
  from Cons.prems obtain h where h: "service = Some h"
    by (cases service) (simp_all add: x)
  let ?q = "(emit [ServiceClose name] p)\<lparr>services := AList.delete name (services p)\<rparr>"
  from Cons.prems h have r: "closeServices xs ?q = Inr p'"
    by (simp add: x)
  have g: "grows removalEvent p ?q"
    by (simp add: grows_def removalEvent_def)
  from Cons.IH [OF r] g show ?case
    by (auto simp add: x filter_delete_keys serviceClosed_def decommissioned_def intro: grows_trans)
qed

lemma filter_removed_keys:
  "filter (\<lambda>kv. fst kv \<notin> keysOf (filter (\<lambda>kv. fst kv \<notin> K) al)) al =
   filter (\<lambda>kv. fst kv \<in> K) al"
  by (rule filter_cong) (auto simp add: keysOf_def)

lemma count_removed_keys:
  "distinct (map fst al) \<Longrightarrow>
   count_list (map fst (filter (\<lambda>kv. fst kv \<notin> K) al)) i =
     (if i \<in> keysOf al \<and> i \<notin> K then 1 else 0)"
  by (induction al) (auto simp add: keysOf_def)

lemma removeNotPresent_facts:
  assumes "removeNotPresent new p = Inr p'"
  shows "proxyStates p' = filter (\<lambda>kv. fst kv \<in> keysOf new) (proxyStates p)"
    and "services p' = filter (\<lambda>kv. fst kv \<in> serviceNames new) (services p)"
    and "stopChan p' = stopChan p" and "serving p' = serving p"
    and "distinct (map fst (proxyStates p)) \<Longrightarrow>
         decommissioned i p' = decommissioned i p +
           (if i \<in> keysOf (proxyStates p) \<and> i \<notin> keysOf new then 1 else 0)"
    and "distinct (map fst (services p)) \<Longrightarrow>
         serviceClosed N p' = serviceClosed N p +
           (if N \<in> keysOf (services p) \<and> N \<notin> serviceNames new then 1 else 0)"
    and "grows removalEvent p p'"
proof -
  from assms obtain p1 where a: "closeProxies (removedProxies new p) p = Inr p1"
    and b: "closeServices (removedServices new p1) p1 = Inr p'"
    by (auto simp add: removeNotPresent_def andThen_Inr_iff)
  note ca = closeProxies_conj [OF a]
  note cb = closeServices_conj [OF b]
  from ca have s1: "services p1 = services p" by simp
  from ca cb show "proxyStates p' = filter (\<lambda>kv. fst kv \<in> keysOf new) (proxyStates p)"
    by (simp add: removedProxies_filter filter_removed_keys)
  from ca cb show "services p' = filter (\<lambda>kv. fst kv \<in> serviceNames new) (services p)"
    by (simp add: removedServices_filter filter_removed_keys)
  from ca cb show "stopChan p' = stopChan p" "serving p' = serving p"
    by simp_all
  from ca cb show "grows removalEvent p p'"
    by (blast intro: grows_trans)
  assume "distinct (map fst (proxyStates p))"
  with ca cb show "decommissioned i p' = decommissioned i p +
           (if i \<in> keysOf (proxyStates p) \<and> i \<notin> keysOf new then 1 else 0)"
    by (simp add: removedProxies_filter count_removed_keys)
next
  from assms obtain p1 where a: "closeProxies (removedProxies new p) p = Inr p1"
    and b: "closeServices (removedServices new p1) p1 = Inr p'"
    by (auto simp add: removeNotPresent_def andThen_Inr_iff)
  note ca = closeProxies_conj [OF a]
  note cb = closeServices_conj [OF b]
  assume "distinct (map fst (services p))"
  with ca cb show "serviceClosed N p' = serviceClosed N p +
           (if N \<in> keysOf (services p) \<and> N \<notin> serviceNames new then 1 else 0)"
    by (simp add: removedServices_filter count_removed_keys)
qed

section \<open>One snapshot\<close>

lemma applySnapshot_facts:
  assumes "applySnapshot env cfgs p = Inr p'" and "wf p"
  shows "keysOf (proxyStates p') = keysOf cfgs"
    and "wf p'"
    and "provisioned i p' = provisioned i p +
       (if i \<in> keysOf cfgs \<and> i \<notin> keysOf (proxyStates p) then 1 else 0)"
    and "decommissioned i p' = decommissioned i p +
       (if i \<in> keysOf (proxyStates p) \<and> i \<notin> keysOf cfgs then 1 else 0)"
    and "serviceClosed N p' = serviceClosed N p +
       (if N \<in> keysOf (services p) \<and> N \<notin> serviceNames cfgs then 1 else 0)"
    and "keysOf (services p') \<subseteq> serviceNames cfgs"
    and "N \<in> keysOf (services p) \<Longrightarrow> N \<in> serviceNames cfgs \<Longrightarrow>
         map_of (services p') N = map_of (services p) N"
    and "N \<in> keysOf (services p) \<Longrightarrow> N \<in> serviceNames cfgs \<Longrightarrow> N \<in> keysOf (services p')"
    and "created N p' = created N p +
       (if N \<in> keysOf (services p') \<and> N \<notin> keysOf (services p) then 1 else 0)"
    and "stopChan p' = stopChan p" and "serving p' = serving p"
proof -
  from assms(1) obtain p1 where a: "provisionAll env cfgs p = Inr p1"
    and b: "removeNotPresent cfgs p1 = Inr p'"
    by (auto simp add: applySnapshot_def andThen_Inr_iff)
  note pa = provisionAll_facts [OF a]
  note rb = removeNotPresent_facts [OF b]
  from assms(2) have dp: "distinct (map fst (proxyStates p))" and ds: "distinct (map fst (services p))"
    by (simp_all add: wf_def)
  have dp1: "distinct (map fst (proxyStates p1))" using dp by (rule pa(2))
  have ds1: "distinct (map fst (services p1))" using ds by (rule pa(3))
  show "keysOf (proxyStates p') = keysOf cfgs"
    using rb(1) pa(1) by (auto simp add: keysOf_filter)
  show "wf p'"
    using rb(1,2) dp1 ds1 by (simp add: wf_def distinct_filter_keys)
  have "provisioned i p' = provisioned i p1"
    using rb(7) by (simp add: provisioned_def grows_count provisioning_not_removal)
  then show "provisioned i p' = provisioned i p +
       (if i \<in> keysOf cfgs \<and> i \<notin> keysOf (proxyStates p) then 1 else 0)"
    using pa(7) by simp
  have "decommissioned i p1 = decommissioned i p"
    using pa(9) by (simp add: decommissioned_def grows_count provisioning_not_removal)
  then show "decommissioned i p' = decommissioned i p +
       (if i \<in> keysOf (proxyStates p) \<and> i \<notin> keysOf cfgs then 1 else 0)"
    using rb(5) [OF dp1] pa(1) by auto
  have "serviceClosed N p1 = serviceClosed N p"
    using pa(9) by (simp add: serviceClosed_def grows_count provisioning_not_removal)
  then show "serviceClosed N p' = serviceClosed N p +
       (if N \<in> keysOf (services p) \<and> N \<notin> serviceNames cfgs then 1 else 0)"
    using rb(6) [OF ds1] pa(4,5) by auto
  show sub: "keysOf (services p') \<subseteq> serviceNames cfgs"
    using rb(2) by (simp add: keysOf_filter)
  show "map_of (services p') N = map_of (services p) N"
    if "N \<in> keysOf (services p)" "N \<in> serviceNames cfgs"
    using that rb(2) pa(6) by (simp add: map_of_filter_keys)
  show "N \<in> keysOf (services p')"
    if "N \<in> keysOf (services p)" "N \<in> serviceNames cfgs"
    using that rb(2) pa(4) by (auto simp add: keysOf_filter)
  have "created N p' = created N p1"
    using rb(7) by (simp add: created_def grows_count provisioning_not_removal)
  moreover have "N \<in> keysOf (services p1) \<and> N \<notin> keysOf (services p) \<longleftrightarrow>
      N \<in> keysOf (services p') \<and> N \<notin> keysOf (services p)"
    using rb(2) pa(5) by (auto simp add: keysOf_filter)
  ultimately show "created N p' = created N p +
       (if N \<in> keysOf (services p') \<and> N \<notin> keysOf (services p) then 1 else 0)"
    using pa(8) [of N] by simp
  show "stopChan p' = stopChan p" "serving p' = serving p"
    using rb(3,4) pa(10,11) by simp_all
qed

section \<open>Runs of the process\<close>

lemma closeAll_emit:
  "closeAll xs p = Inr p' \<Longrightarrow> \<exists>evs. p' = emit evs p \<and> set evs \<subseteq> range ServiceClose"
proof (induction xs arbitrary: p)
  case Nil
  then have "p' = emit [] p" by (simp add: emit_def)
  then show ?case by (intro exI [of _ "[]"]) simp
next
  case (Cons x xs)
  obtain name svc where x: "x = (name, svc)" by (cases x)
  from Cons.prems obtain h where "svc = Some h"
    by (cases svc) (simp_all add: x)
  with Cons.prems have "closeAll xs (emit [ServiceClose name] p) = Inr p'"
    by (simp add: x)
  from Cons.IH [OF this] obtain evs where "p' = emit (ServiceClose name # evs) p"
    and "set evs \<subseteq> range ServiceClose"
    by (auto simp add: emit_emit)
  then show ?case by (intro exI [of _ "ServiceClose name # evs"]) auto
qed

lemma Close_Inr:
  assumes "Close p = Inr p'"
  obtains evs where "\<not> stopChan p" "p' = emit (StopSignal # evs) (p\<lparr>stopChan := True\<rparr>)"
    "set evs \<subseteq> range ServiceClose"
proof -
  from assms have n: "\<not> stopChan p"
    and "closeAll (services p) (emit [StopSignal] (p\<lparr>stopChan := True\<rparr>)) = Inr p'"
    by (simp_all add: Close_def split: if_splits)
  from closeAll_emit [OF this(2)] obtain evs where "p' = emit (StopSignal # evs) (p\<lparr>stopChan := True\<rparr>)"
    and "set evs \<subseteq> range ServiceClose"
    by (auto simp add: emit_emit)
  with n show ?thesis by (rule that)
qed

lemma publicListenerTask_Inr:
  assumes "publicListenerTask pid svc p = Inr p'"
  obtains s where "map_of (proxyStates p) pid = Some s"
    "p' = (emit [ListenerStart (nextListener p)] p)
            \<lparr>nextListener := Suc (nextListener p), watchers := watchers p @ [nextListener p],
             proxyStates := AList.update pid (s\<lparr>listener := Some (nextListener p)\<rparr>) (proxyStates p)\<rparr>"
  using assms
  by (auto simp add: publicListenerTask_def newListener_def startListener_def emit_def
      split: option.splits)

lemma step_background_maps:
  assumes "isBackground a" and "step env a p = Inr p'"
  shows "map fst (proxyStates p') = map fst (proxyStates p)" and "services p' = services p"
    and "created N p' = created N p" and "stopChan p' = stopChan p"
proof -
  have "map fst (proxyStates p') = map fst (proxyStates p) \<and> services p' = services p \<and>
     created N p' = created N p \<and> stopChan p' = stopChan p"
  proof (cases a)
    case (RunPublicTask k)
    show ?thesis
    proof (cases "k < length (publicTasks p)")
      case True
      with RunPublicTask assms(2)
      have "publicListenerTask (fst (publicTasks p ! k)) (snd (publicTasks p ! k))
              (p\<lparr>publicTasks := dropAt k (publicTasks p)\<rparr>) = Inr p'" by simp
      then show ?thesis
        by (rule publicListenerTask_Inr) (simp add: update_keys_present created_def)
    next
      case False
      with RunPublicTask assms(2) show ?thesis by simp
    qed
  next
    case (RunWatcher k)
    with assms(2) show ?thesis
      by (cases "stopChan p \<and> k < length (watchers p)") (auto simp add: watcherTask_def created_def)
  qed (use assms(1) in \<open>simp_all add: isBackground_def\<close>)
  then show "map fst (proxyStates p') = map fst (proxyStates p)" and "services p' = services p"
    and "created N p' = created N p" and "stopChan p' = stopChan p"
    by simp_all
qed

lemma run_background_maps:
  "list_all isBackground as \<Longrightarrow> run env as p = Inr p' \<Longrightarrow>
   map fst (proxyStates p') = map fst (proxyStates p) \<and> services p' = services p"
proof (induction as arbitrary: p)
  case Nil
  then show ?case by simp
next
  case (Cons a as)
  from Cons.prems obtain p1 where s: "step env a p = Inr p1" and r: "run env as p1 = Inr p'"
    by (auto simp add: andThen_Inr_iff)
  from Cons.prems have b: "isBackground a" and bs: "list_all isBackground as" by simp_all
  from step_background_maps(1,2) [OF b s] Cons.IH [OF bs r] show ?case by simp
qed

lemma step_wf:
  assumes "step env a p = Inr p'" and "wf p"
  shows "wf p'"
proof (cases a)
  case (RecvConfig cfgs)
  with assms show ?thesis
    by (cases "serving p") (auto intro: applySnapshot_facts(2))
next
  case RecvStop
  with assms show ?thesis by (auto simp add: wf_def)
next
  case CallClose
  with assms(1) have "Close p = Inr p'" by simp
  then obtain evs where "p' = emit (StopSignal # evs) (p\<lparr>stopChan := True\<rparr>)"
    by (rule Close_Inr)
  with assms(2) show ?thesis by (simp add: wf_def)
next
  case (RunPublicTask k)
  then have "isBackground a" by (simp add: isBackground_def)
  from step_background_maps(1,2) [OF this assms(1)] assms(2) show ?thesis
    by (simp add: wf_def)
next
  case (RunWatcher k)
  then have "isBackground a" by (simp add: isBackground_def)
  from step_background_maps(1,2) [OF this assms(1)] assms(2) show ?thesis
    by (simp add: wf_def)
qed

lemma run_wf: "run env as p = Inr p' \<Longrightarrow> wf p \<Longrightarrow> wf p'"
  by (induction as arbitrary: p) (auto simp add: andThen_Inr_iff intro: step_wf)

lemma wf_New: "wf New"
  by (simp add: wf_def New_def)

lemma apply_startedAB: "applySnapshot alwaysOK snapAB New = Inr startedAB"
  unfolding startedAB_def by (rule Inr_finalState) code_simp

lemma run_withAB: "run alwaysOK [RunPublicTask 0, RunPublicTask 0] startedAB = Inr withAB"
  unfolding withAB_def by (rule Inr_finalState) code_simp

lemma apply_withBC: "applySnapshot alwaysOK snapBC withAB = Inr withBC"
  unfolding withBC_def by (rule Inr_finalState) code_simp

lemma reach_withAB:
  "run alwaysOK [RecvConfig snapAB, RunPublicTask 0, RunPublicTask 0] New = Inr withAB"
  by code_simp

section \<open>Reconciliation\<close>

lemma provisionStep_refl [simp]: "provisionStep i p p"
  by (simp add: provisionStep_def)

lemma provisionStep_trans:
  assumes "provisionStep i p q" and "provisionStep i q r"
  shows "provisionStep i p r"
proof -
  from assms have "keysOf (proxyStates p) \<subseteq> keysOf (proxyStates q)"
    and "keysOf (proxyStates q) \<subseteq> keysOf (proxyStates r)"
    by (simp_all add: provisionStep_def)
  then have "i \<in> keysOf (proxyStates p) \<Longrightarrow> i \<in> keysOf (proxyStates q)"
    and "i \<in> keysOf (proxyStates q) \<Longrightarrow> i \<in> keysOf (proxyStates r)"
    and "keysOf (proxyStates p) \<subseteq> keysOf (proxyStates r)"
    by auto
  with assms show ?thesis
    unfolding provisionStep_def
    by (cases "i \<in> keysOf (proxyStates p)"; cases "i \<in> keysOf (proxyStates q)";
        cases "i \<in> keysOf (proxyStates r)"; cases "distinct (map fst (proxyStates p))";
        cases "distinct (map fst (proxyStates q))") simp_all
qed

lemma provisionStep_same:
  "map fst (proxyStates q) = map fst (proxyStates p) \<Longrightarrow> provisioned i q = provisioned i p \<Longrightarrow>
   decommissioned i q = decommissioned i p \<Longrightarrow> provisionStep i p q"
  using keysOf_map_fst [of "proxyStates q" "proxyStates p"] by (simp add: provisionStep_def)

lemma startUpstreams_keys:
  "map fst (proxyStates (finalState (startUpstreams pid ucs p))) = map fst (proxyStates p) \<and>
   provisioned i (finalState (startUpstreams pid ucs p)) = provisioned i p \<and>
   decommissioned i (finalState (startUpstreams pid ucs p)) = decommissioned i p"
proof (induction ucs arbitrary: p)
  case Nil
  show ?case by simp
next
  case (Cons uc ucs)
  show ?case
  proof (cases "map_of (proxyStates p) pid")
    case None
    then show ?thesis
      by (simp add: newListener_def startListener_def provisioned_def decommissioned_def)
  next
    case (Some s)
    let ?r = "(emit [ListenerStart (nextListener p)] (p\<lparr>nextListener := Suc (nextListener p)\<rparr>))
              \<lparr>watchers := watchers p @ [nextListener p],
               proxyStates := AList.update pid (s\<lparr>upstreams := AList.update uc (nextListener p) (upstreams s)\<rparr>)
                     (proxyStates p)\<rparr>"
    from Cons.IH [of ?r] Some show ?thesis
      by (simp add: newListener_def startListener_def provisioned_def decommissioned_def
          update_keys_present)
  qed
qed

lemma serviceFor_keys:
  "case serviceFor env cfg p of
     Inl (f, q) \<Rightarrow> proxyStates q = proxyStates p \<and> provisioned i q = provisioned i p \<and>
       decommissioned i q = decommissioned i p
   | Inr (svc, q) \<Rightarrow> proxyStates q = proxyStates p \<and> provisioned i q = provisioned i p \<and>
       decommissioned i q = decommissioned i p"
  by (simp add: serviceFor_def Let_def provisioned_def decommissioned_def split: option.split)

lemma runServiceProxy_step:
  "provisionStep i p (finalState (runServiceProxy env pid cfg p)) \<and>
   keysOf (proxyStates (finalState (runServiceProxy env pid cfg p))) \<subseteq>
     insert pid (keysOf (proxyStates p))"
proof (cases "map_of (proxyStates p) pid")
  case (Some s)
  then show ?thesis by (auto simp add: runServiceProxy_def)
next
  case None
  then have k: "pid \<notin> keysOf (proxyStates p)" by (simp add: map_of_None_keysOf)
  let ?p1 = "emit [Provisioned pid]
            (p\<lparr>proxyStates :=
                 AList.update pid \<lparr>config = cfg, listener = None, upstreams = []\<rparr>
                   (proxyStates p)\<rparr>)"
  have g1: "provisionStep i p ?p1"
    using k by (auto simp add: provisionStep_def provisioned_def decommissioned_def distinct_update)
  have k1: "keysOf (proxyStates ?p1) = insert pid (keysOf (proxyStates p))" by simp
  show ?thesis
  proof (cases "serviceFor env cfg ?p1")
    case (Inl x)
    obtain f q where x: "x = (f, q)" by (cases x)
    from serviceFor_keys [where env = env and cfg = cfg and p = ?p1 and i = i] Inl x
    have q: "proxyStates q = proxyStates ?p1" "provisioned i q = provisioned i ?p1"
      "decommissioned i q = decommissioned i ?p1" by simp_all
    then have "provisionStep i ?p1 q" by (intro provisionStep_same) simp_all
    with g1 have "provisionStep i p q" by (rule provisionStep_trans)
    moreover from q(1) have "keysOf (proxyStates q) = insert pid (keysOf (proxyStates p))"
      by simp
    ultimately show ?thesis using None Inl x by (simp add: runServiceProxy_def)
  next
    case (Inr y)
    obtain svc q where y: "y = (svc, q)" by (cases y)
    let ?q3 = "q\<lparr>publicTasks := publicTasks q @ [(pid, svc)]\<rparr>"
    let ?r = "finalState (startUpstreams pid (Upstreams cfg) ?q3)"
    from serviceFor_keys [where env = env and cfg = cfg and p = ?p1 and i = i] Inr y
    have q: "proxyStates q = proxyStates ?p1" "provisioned i q = provisioned i ?p1"
      "decommissioned i q = decommissioned i ?p1" by simp_all
    from startUpstreams_keys [of pid "Upstreams cfg" ?q3 i] q
    have r: "map fst (proxyStates ?r) = map fst (proxyStates ?p1)"
      "provisioned i ?r = provisioned i ?p1" "decommissioned i ?r = decommissioned i ?p1"
      by (simp_all add: provisioned_def decommissioned_def)
    then have "provisionStep i ?p1 ?r" by (intro provisionStep_same)
    with g1 have "provisionStep i p ?r" by (rule provisionStep_trans)
    moreover from keysOf_map_fst [OF r(1)] have "keysOf (proxyStates ?r) = insert pid (keysOf (proxyStates p))"
      by simp
    ultimately show ?thesis using None Inr y by (simp add: runServiceProxy_def)
  qed
qed

lemma provisionAll_step:
  "provisionStep i p (finalState (provisionAll env cfgs p)) \<and>
   keysOf (proxyStates (finalState (provisionAll env cfgs p))) \<subseteq>
     keysOf cfgs \<union> keysOf (proxyStates p)"
proof (induction cfgs arbitrary: p)
  case Nil
  show ?case by simp
next
  case (Cons x cfgs)
  obtain pid cfg where x: "x = (pid, cfg)" by (cases x)
  note r = runServiceProxy_step [of i p env pid cfg]
  show ?case
  proof (cases "runServiceProxy env pid cfg p")
    case (Inl e)
    obtain f q where "e = (f, q)" by (cases e)
    with Inl r show ?thesis by (auto simp add: x)
  next
    case (Inr p1)
    with r have "provisionStep i p p1"
      and "keysOf (proxyStates p1) \<subseteq> insert pid (keysOf (proxyStates p))"
      by simp_all
    with Cons.IH [of p1] Inr show ?thesis
      by (auto simp add: x intro: provisionStep_trans)
  qed
qed

lemma closeProxies_bound:
  "provisioned i (finalState (closeProxies xs p)) = provisioned i p \<and>
   decommissioned i (finalState (closeProxies xs p)) \<le>
     decommissioned i p + count_list (map fst xs) i"
proof (induction xs arbitrary: p)
  case Nil
  show ?case by simp
next
  case (Cons x xs)
  obtain pid state where x: "x = (pid, state)" by (cases x)
  show ?case
  proof (cases "listener state")
    case None
    then show ?thesis by (simp add: x provisioned_def decommissioned_def)
  next
    case (Some l)
    let ?q = "(emit (ListenerClose Decommission l #
                    map (\<lambda>(k, u). ListenerClose Decommission u) (upstreams state))
               (emit [Decommissioned pid] p))
               \<lparr>proxyStates := AList.delete pid (proxyStates p)\<rparr>"
    have c: "count_list (map (\<lambda>(k, u). ListenerClose Decommission u) us) (Provisioned i) = 0"
      "count_list (map (\<lambda>(k, u). ListenerClose Decommission u) us) (Decommissioned i) = 0"
      for us :: "(string \<times> listenerRef) list"
      by (induction us; auto)+
    have "provisioned i ?q = provisioned i p"
      "decommissioned i ?q = decommissioned i p + (if pid = i then 1 else 0)"
      by (simp_all add: provisioned_def decommissioned_def c)
    with Cons.IH [of ?q] Some show ?thesis by (cases "pid = i") (simp_all add: x)
  qed
qed

lemma closeServices_bound:
  "provisioned i (finalState (closeServices xs p)) = provisioned i p \<and>
   decommissioned i (finalState (closeServices xs p)) = decommissioned i p"
proof (induction xs arbitrary: p)
  case Nil
  show ?case by simp
next
  case (Cons x xs)
  obtain name service where x: "x = (name, service)" by (cases x)
  show ?case
  proof (cases service)
    case None
    then show ?thesis by (simp add: x)
  next
    case (Some h)
    from Cons.IH [of "(emit [ServiceClose name] p)\<lparr>services := AList.delete name (services p)\<rparr>"]
      Some show ?thesis
      by (simp add: x provisioned_def decommissioned_def)
  qed
qed

lemma removeNotPresent_bound:
  assumes "distinct (map fst (proxyStates p))"
  shows "provisioned i (finalState (removeNotPresent new p)) = provisioned i p \<and>
     decommissioned i (finalState (removeNotPresent new p)) \<le> decommissioned i p +
       (if i \<in> keysOf (proxyStates p) \<and> i \<notin> keysOf new then 1 else 0)"
proof -
  note a = closeProxies_bound [of i "removedProxies new p" p]
  have c: "count_list (map fst (removedProxies new p)) i =
      (if i \<in> keysOf (proxyStates p) \<and> i \<notin> keysOf new then 1 else 0)"
    using assms by (simp add: removedProxies_filter count_removed_keys)
  show ?thesis
  proof (cases "closeProxies (removedProxies new p) p")
    case (Inl e)
    obtain f q where "e = (f, q)" by (cases e)
    with Inl a c show ?thesis by (simp add: removeNotPresent_def)
  next
    case (Inr p1)
    with a c closeServices_bound [of i "removedServices new p1" p1] show ?thesis
      by (simp add: removeNotPresent_def)
  qed
qed

lemma applySnapshot_bound:
  assumes "distinct (map fst (proxyStates p))"
  shows "provisioned i (finalState (applySnapshot env cfgs p)) \<le> provisioned i p +
       (if i \<in> keysOf cfgs \<and> i \<notin> keysOf (proxyStates p) then 1 else 0) \<and>
     decommissioned i (finalState (applySnapshot env cfgs p)) \<le> decommissioned i p +
       (if i \<in> keysOf (proxyStates p) \<and> i \<notin> keysOf cfgs then 1 else 0)"
proof -
  let ?q = "finalState (provisionAll env cfgs p)"
  from provisionAll_step [of i p env cfgs] assms
  have 1: "provisioned i ?q = provisioned i p +
        (if i \<in> keysOf (proxyStates ?q) \<and> i \<notin> keysOf (proxyStates p) then 1 else 0)"
    and 2: "decommissioned i ?q = decommissioned i p"
    and 3: "keysOf (proxyStates p) \<subseteq> keysOf (proxyStates ?q)"
    and 4: "distinct (map fst (proxyStates ?q))"
    and 5: "keysOf (proxyStates ?q) \<subseteq> keysOf cfgs \<union> keysOf (proxyStates p)"
    by (simp_all add: provisionStep_def)
  from 1 5 have b1: "provisioned i ?q \<le> provisioned i p +
       (if i \<in> keysOf cfgs \<and> i \<notin> keysOf (proxyStates p) then 1 else 0)"
    by auto
  show ?thesis
  proof (cases "provisionAll env cfgs p")
    case (Inl e)
    obtain f q where "e = (f, q)" by (cases e)
    with Inl b1 2 show ?thesis by (simp add: applySnapshot_def)
  next
    case (Inr p1)
    with b1 2 3 4 5 have p1: "provisioned i p1 \<le> provisioned i p +
       (if i \<in> keysOf cfgs \<and> i \<notin> keysOf (proxyStates p) then 1 else 0)"
      "decommissioned i p1 = decommissioned i p" "distinct (map fst (proxyStates p1))"
      "keysOf (proxyStates p1) \<subseteq> keysOf cfgs \<union> keysOf (proxyStates p)"
      by simp_all
    from p1(4) have "(if i \<in> keysOf (proxyStates p1) \<and> i \<notin> keysOf cfgs then 1 else 0) \<le>
        (if i \<in> keysOf (proxyStates p) \<and> i \<notin> keysOf cfgs then 1 else (0::nat))"
      by auto
    with removeNotPresent_bound [OF p1(3), of i cfgs] p1(1,2) Inr show ?thesis
      by (simp add: applySnapshot_def)
  qed
qed

text \<open>
  C1. Let a snapshot \<open>S1\<close> be applied in a reachable state and let goroutines run, none
  of it ending in a panic, and let then a snapshot \<open>S2\<close> be applied. Whether or not this
  ends in a panic, it creates a \<open>proxyState\<close> at most once for an identifier of \<open>S2\<close> that
  is not in \<open>S1\<close> and never for another identifier, and it removes at most once an
  identifier of \<open>S1\<close> that is not in \<open>S2\<close> and never another. When \<open>S2\<close> is applied to the
  end, it is exactly once, and afterwards the identifiers with a \<open>proxyState\<close> are those
  of \<open>S2\<close>. \<open>runServiceProxy\<close> on an identifier of \<open>S1\<close> returns at once with the state
  unchanged.
\<close>

theorem snapshot_diff:
  assumes "run env acts New = Inr p0"
    and "applySnapshot env S1 p0 = Inr p1"
    and "list_all isBackground bg" and "run env bg p1 = Inr q"
  shows "provisioned i (finalState (applySnapshot env S2 q)) \<le>
           provisioned i q + (if i \<in> keysOf S2 \<and> i \<notin> keysOf S1 then 1 else 0) \<and>
         decommissioned i (finalState (applySnapshot env S2 q)) \<le>
           decommissioned i q + (if i \<in> keysOf S1 \<and> i \<notin> keysOf S2 then 1 else 0) \<and>
         (applySnapshot env S2 q = Inr p2 \<longrightarrow>
           provisioned i p2 =
             provisioned i q + (if i \<in> keysOf S2 \<and> i \<notin> keysOf S1 then 1 else 0) \<and>
           decommissioned i p2 =
             decommissioned i q + (if i \<in> keysOf S1 \<and> i \<notin> keysOf S2 then 1 else 0) \<and>
           keysOf (proxyStates p2) = keysOf S2) \<and>
         (i \<in> keysOf S1 \<longrightarrow> runServiceProxy env i c q = Inr q)"
proof -
  have w0: "wf p0" using assms(1) wf_New by (rule run_wf)
  note a1 = applySnapshot_facts [OF assms(2) w0]
  have w1: "wf q" using assms(4) a1(2) by (rule run_wf)
  have k: "keysOf (proxyStates q) = keysOf S1"
    using run_background_maps [OF assms(3,4)] a1(1) keysOf_map_fst [of "proxyStates q" "proxyStates p1"]
    by simp
  from w1 have d: "distinct (map fst (proxyStates q))" by (simp add: wf_def)
  note b = applySnapshot_bound [OF d, of i env S2]
  have e: "provisioned i p2 =
             provisioned i q + (if i \<in> keysOf S2 \<and> i \<notin> keysOf S1 then 1 else 0) \<and>
           decommissioned i p2 =
             decommissioned i q + (if i \<in> keysOf S1 \<and> i \<notin> keysOf S2 then 1 else 0) \<and>
           keysOf (proxyStates p2) = keysOf S2" if "applySnapshot env S2 q = Inr p2"
    using applySnapshot_facts(1) [OF that w1] applySnapshot_facts(3,4) [OF that w1, of i] k
    by simp
  have "runServiceProxy env i c q = Inr q" if "i \<in> keysOf S1"
    using that k map_of_None_keysOf [of "proxyStates q" i]
    by (simp add: runServiceProxy_def)
  with b e k show ?thesis by simp
qed

text \<open>
  The same for the snapshots \<open>snapAB\<close> and \<open>snapBC\<close>: \<open>C\<close> is provisioned once, \<open>A\<close> is
  removed once, \<open>B\<close> is left alone.
\<close>

theorem snapshot_diff_witness:
  "provisioned ''C'' withBC = provisioned ''C'' withAB + 1 \<and>
   decommissioned ''A'' withBC = decommissioned ''A'' withAB + 1 \<and>
   provisioned ''B'' withBC = provisioned ''B'' withAB \<and>
   decommissioned ''B'' withBC = decommissioned ''B'' withAB \<and>
   keysOf (proxyStates withBC) = {''B'', ''C''}"
proof -
  have 1: "run alwaysOK [] New = Inr New" by simp
  have 3: "list_all isBackground [RunPublicTask 0, RunPublicTask 0]"
    by (simp add: isBackground_def)
  note t = snapshot_diff [OF 1 apply_startedAB 3 run_withAB, of _ snapBC withBC]
  from t [of "''A''"] t [of "''B''"] t [of "''C''"] apply_withBC show ?thesis
    by (simp add: snapAB_def snapBC_def)
qed

text \<open>
  C3. When a snapshot is applied in a reachable state without a panic, the handle registered
  under a name \<open>N\<close> is closed (once) exactly if no configuration of the snapshot has the
  service name \<open>N\<close>; afterwards the registry holds only names of the snapshot; and a
  registered handle whose name the snapshot still refers to stays registered, unchanged
  and not closed, also when an instance that used it is removed by the same snapshot.
\<close>

theorem handle_closed_iff_unreferenced:
  assumes "run env acts New = Inr p" and "applySnapshot env cfgs p = Inr p'"
  shows "serviceClosed N p' = serviceClosed N p +
           (if N \<in> keysOf (services p) \<and> N \<notin> serviceNames cfgs then 1 else 0) \<and>
         keysOf (services p') \<subseteq> serviceNames cfgs \<and>
         (N \<in> keysOf (services p) \<and> N \<in> serviceNames cfgs \<longrightarrow>
            map_of (services p') N = map_of (services p) N \<and> N \<in> keysOf (services p'))"
proof -
  have w: "wf p" using assms(1) wf_New by (rule run_wf)
  note a = applySnapshot_facts [OF assms(2) w]
  from a(5) [of N] a(6) a(7) [of N] a(8) [of N] show ?thesis by simp
qed

text \<open>
  The same for the handle of \<open>X\<close> when \<open>snapBC\<close> is applied: instance \<open>A\<close> of \<open>X\<close> goes,
  instance \<open>B\<close> of \<open>X\<close> stays, and the handle is not closed.
\<close>

theorem handle_closed_iff_unreferenced_witness:
  "serviceClosed ''X'' withBC = serviceClosed ''X'' withAB \<and>
   map_of (services withBC) ''X'' = map_of (services withAB) ''X'' \<and>
   ''X'' \<in> keysOf (services withBC) \<and>
   keysOf (services withBC) \<subseteq> {''X'', ''Y''}"
  using handle_closed_iff_unreferenced [OF reach_withAB apply_withBC, of "''X''"]
  by (simp add: snapBC_def serviceNames_def cfgOf_def withAB_def startedAB_def snapAB_def
      New_def applySnapshot_def runServiceProxy_def serviceFor_def alwaysOK_def Let_def
      removeNotPresent_def removedProxies_def removedServices_def newListener_def
      startListener_def publicListenerTask_def dropAt_def)

lemma startUpstreams_registry:
  "services (finalState (startUpstreams pid ucs p)) = services p \<and>
   created N (finalState (startUpstreams pid ucs p)) = created N p"
proof (induction ucs arbitrary: p)
  case Nil
  show ?case by simp
next
  case (Cons uc ucs)
  show ?case
  proof (cases "map_of (proxyStates p) pid")
    case None
    then show ?thesis by (simp add: newListener_def startListener_def created_def)
  next
    case (Some s)
    let ?r = "(emit [ListenerStart (nextListener p)] (p\<lparr>nextListener := Suc (nextListener p)\<rparr>))
              \<lparr>watchers := watchers p @ [nextListener p],
               proxyStates := AList.update pid (s\<lparr>upstreams := AList.update uc (nextListener p) (upstreams s)\<rparr>)
                     (proxyStates p)\<rparr>"
    from Cons.IH [of ?r] Some show ?thesis
      by (simp add: newListener_def startListener_def created_def)
  qed
qed

lemma registryStep_refl [simp]: "registryStep N p p"
  by (simp add: registryStep_def)

lemma registryStep_trans:
  "registryStep N p q \<Longrightarrow> registryStep N q r \<Longrightarrow> registryStep N p r"
  unfolding registryStep_def
  by (cases "N \<in> keysOf (services p)"; cases "N \<in> keysOf (services q)";
      cases "N \<in> keysOf (services r)"; cases "distinct (map fst (services p))";
      cases "distinct (map fst (services q))") simp_all

lemma registryStep_same:
  "services q = services p \<Longrightarrow> created N q = created N p \<Longrightarrow> registryStep N p q"
  by (simp add: registryStep_def)

lemma andThen_rel:
  assumes "\<And>a b c. R a b \<Longrightarrow> R b c \<Longrightarrow> R a c"
    and "R p (finalState r)" and "\<And>q. R q (finalState (f q))"
  shows "R p (finalState (andThen r f))"
proof (cases r)
  case (Inl x)
  with assms(2) show ?thesis by simp
next
  case (Inr q)
  with assms(2) have "R p q" by simp
  from assms(1) [OF this assms(3) [of q]] Inr show ?thesis by simp
qed

lemma serviceFor_registry:
  "case serviceFor env cfg p of Inl (f, q) \<Rightarrow> registryStep N p q \<and> proxyStates q = proxyStates p
   | Inr (svc, q) \<Rightarrow> registryStep N p q \<and> proxyStates q = proxyStates p"
proof (cases "map_of (services p) (ProxiedServiceName cfg)")
  case (Some svc)
  then show ?thesis by (simp add: serviceFor_def)
next
  case None
  then have "ProxiedServiceName cfg \<notin> keysOf (services p)"
    by (simp add: map_of_None_keysOf)
  with None show ?thesis
    by (auto simp add: serviceFor_def Let_def registryStep_def created_def distinct_update)
qed

lemma runServiceProxy_registry:
  "registryStep N p (finalState (runServiceProxy env pid cfg p))"
proof (cases "map_of (proxyStates p) pid")
  case (Some s)
  then show ?thesis by (simp add: runServiceProxy_def)
next
  case None
  let ?p1 = "emit [Provisioned pid]
            (p\<lparr>proxyStates :=
                 AList.update pid \<lparr>config = cfg, listener = None, upstreams = []\<rparr>
                   (proxyStates p)\<rparr>)"
  have g1: "registryStep N p ?p1"
    by (rule registryStep_same) (simp_all add: created_def)
  show ?thesis
  proof (cases "serviceFor env cfg ?p1")
    case (Inl x)
    obtain f q where x: "x = (f, q)" by (cases x)
    from serviceFor_registry [where env = env and cfg = cfg and p = ?p1 and N = N] Inl x
    have "registryStep N ?p1 q" by simp
    with g1 have "registryStep N p q" by (rule registryStep_trans)
    with None Inl x show ?thesis by (simp add: runServiceProxy_def)
  next
    case (Inr y)
    obtain svc q where y: "y = (svc, q)" by (cases y)
    let ?q3 = "q\<lparr>publicTasks := publicTasks q @ [(pid, svc)]\<rparr>"
    from serviceFor_registry [where env = env and cfg = cfg and p = ?p1 and N = N] Inr y
    have "registryStep N ?p1 q" by simp
    with g1 have "registryStep N p q" by (rule registryStep_trans)
    moreover have "registryStep N q (finalState (startUpstreams pid (Upstreams cfg) ?q3))"
      using startUpstreams_registry [of pid "Upstreams cfg" ?q3 N]
      by (intro registryStep_same) (simp_all add: created_def)
    ultimately have "registryStep N p (finalState (startUpstreams pid (Upstreams cfg) ?q3))"
      by (rule registryStep_trans)
    with None Inr y show ?thesis by (simp add: runServiceProxy_def)
  qed
qed

lemma provisionAll_registry:
  "registryStep N p (finalState (provisionAll env cfgs p))"
proof (induction cfgs arbitrary: p)
  case Nil
  show ?case by simp
next
  case (Cons x cfgs)
  obtain pid cfg where x: "x = (pid, cfg)" by (cases x)
  show ?case
    unfolding x provisionAll.simps
    by (rule andThen_rel [where R = "registryStep N"])
      (erule registryStep_trans, assumption, rule runServiceProxy_registry, rule Cons.IH)
qed

lemma closeProxies_registry:
  "registryStep N p (finalState (closeProxies xs p))"
proof (induction xs arbitrary: p)
  case Nil
  show ?case by simp
next
  case (Cons x xs)
  obtain pid state where x: "x = (pid, state)" by (cases x)
  show ?case
  proof (cases "listener state")
    case None
    then show ?thesis by (simp add: x registryStep_same created_def)
  next
    case (Some l)
    let ?q = "(emit (ListenerClose Decommission l #
                    map (\<lambda>(k, u). ListenerClose Decommission u) (upstreams state))
               (emit [Decommissioned pid] p))
               \<lparr>proxyStates := AList.delete pid (proxyStates p)\<rparr>"
    have "count_list (map (\<lambda>(k, u). ListenerClose Decommission u) us) (ServiceCreate N) = 0"
      for us :: "(string \<times> listenerRef) list"
      by (induction us) auto
    then have "registryStep N p ?q"
      by (intro registryStep_same) (simp_all add: created_def)
    then have "registryStep N p (finalState (closeProxies xs ?q))"
      using Cons.IH by (rule registryStep_trans)
    with Some show ?thesis by (simp add: x)
  qed
qed

lemma closeServices_registry:
  "N \<notin> keysOf xs \<Longrightarrow> registryStep N p (finalState (closeServices xs p))"
proof (induction xs arbitrary: p)
  case Nil
  show ?case by simp
next
  case (Cons x xs)
  obtain name service where x: "x = (name, service)" by (cases x)
  from Cons.prems have n: "N \<noteq> name" and ns: "N \<notin> keysOf xs" by (auto simp add: x)
  show ?case
  proof (cases service)
    case None
    then show ?thesis by (simp add: x)
  next
    case (Some h)
    let ?q = "(emit [ServiceClose name] p)\<lparr>services := AList.delete name (services p)\<rparr>"
    have "N \<in> keysOf (AList.delete name (services p)) \<longleftrightarrow> N \<in> keysOf (services p)"
      using n by (auto simp add: keysOf_def AList.delete_eq)
    then have "registryStep N p ?q"
      by (simp add: registryStep_def created_def distinct_delete)
    then have "registryStep N p (finalState (closeServices xs ?q))"
      using Cons.IH [OF ns] by (rule registryStep_trans)
    with Some show ?thesis by (simp add: x)
  qed
qed

lemma removeNotPresent_registry:
  assumes "N \<in> serviceNames new"
  shows "registryStep N p (finalState (removeNotPresent new p))"
  unfolding removeNotPresent_def
proof (rule andThen_rel [where R = "registryStep N"])
  show "registryStep N a c" if "registryStep N a b" "registryStep N b c" for a b c
    using that by (rule registryStep_trans)
  show "registryStep N p (finalState (closeProxies (removedProxies new p) p))"
    by (rule closeProxies_registry)
  show "registryStep N q (finalState (closeServices (removedServices new q) q))" for q
    using assms by (intro closeServices_registry) (auto simp add: removedServices_filter keysOf_def)
qed

lemma applySnapshot_registry:
  assumes "N \<in> serviceNames cfgs"
  shows "registryStep N p (finalState (applySnapshot env cfgs p))"
  unfolding applySnapshot_def
  by (rule andThen_rel [where R = "registryStep N"])
    (erule registryStep_trans, assumption, rule provisionAll_registry,
     rule removeNotPresent_registry [OF assms])

lemma closeAll_registry:
  "registryStep N p (finalState (closeAll xs p))"
proof (induction xs arbitrary: p)
  case Nil
  show ?case by simp
next
  case (Cons x xs)
  obtain name service where x: "x = (name, service)" by (cases x)
  show ?case
  proof (cases service)
    case None
    then show ?thesis by (simp add: x)
  next
    case (Some h)
    have "registryStep N p (emit [ServiceClose name] p)"
      by (rule registryStep_same) (simp_all add: created_def)
    then have "registryStep N p (finalState (closeAll xs (emit [ServiceClose name] p)))"
      using Cons.IH by (rule registryStep_trans)
    with Some show ?thesis by (simp add: x)
  qed
qed

lemma step_registry:
  assumes "\<forall>cfgs. a = RecvConfig cfgs \<longrightarrow> N \<in> serviceNames cfgs"
  shows "registryStep N p (finalState (step env a p))"
proof (cases a)
  case (RecvConfig cfgs)
  with assms have "N \<in> serviceNames cfgs" by simp
  with RecvConfig show ?thesis by (simp add: applySnapshot_registry)
next
  case RecvStop
  then show ?thesis by (simp add: registryStep_same created_def)
next
  case CallClose
  have "registryStep N p (emit [StopSignal] (p\<lparr>stopChan := True\<rparr>))"
    by (rule registryStep_same) (simp_all add: created_def)
  then have "registryStep N p
      (finalState (closeAll (services p) (emit [StopSignal] (p\<lparr>stopChan := True\<rparr>))))"
    using closeAll_registry by (rule registryStep_trans)
  with CallClose show ?thesis by (simp add: Close_def)
next
  case (RunPublicTask k)
  let ?p0 = "p\<lparr>publicTasks := dropAt k (publicTasks p)\<rparr>"
  let ?q = "finalState (publicListenerTask (fst (publicTasks p ! k)) (snd (publicTasks p ! k)) ?p0)"
  have "created N ?q = created N p"
    by (simp add: publicListenerTask_def newListener_def startListener_def created_def
        split: option.split)
  moreover have "services ?q = services p"
    using publicListenerTask_maps [of "fst (publicTasks p ! k)" "snd (publicTasks p ! k)" ?p0]
    by simp
  ultimately have "registryStep N p ?q" by (intro registryStep_same)
  with RunPublicTask show ?thesis by simp
next
  case (RunWatcher k)
  then show ?thesis by (simp add: registryStep_same created_def watcherTask_def)
qed

lemma run_registry:
  "\<forall>cfgs. RecvConfig cfgs \<in> set as \<longrightarrow> N \<in> serviceNames cfgs \<Longrightarrow>
   registryStep N p (finalState (run env as p))"
proof (induction as arbitrary: p)
  case Nil
  show ?case by simp
next
  case (Cons a as)
  from Cons.prems have 1: "\<forall>cfgs. a = RecvConfig cfgs \<longrightarrow> N \<in> serviceNames cfgs"
    and 2: "\<forall>cfgs. RecvConfig cfgs \<in> set as \<longrightarrow> N \<in> serviceNames cfgs"
    by auto
  show ?case
    unfolding run.simps
    by (rule andThen_rel [where R = "registryStep N"])
      (erule registryStep_trans, assumption, rule step_registry [OF 1], rule Cons.IH [OF 2])
qed

text \<open>
  C4. From a reachable state, over any continuation of the run in which every snapshot
  refers to the service name \<open>N\<close>, whether the run goes on or ends in a panic,
  \<open>cfg.Service\<close> is called for \<open>N\<close> at most once, and not at all if \<open>N\<close> is registered at
  the start; and the registry never holds two entries for \<open>N\<close>.
\<close>

theorem handle_created_once:
  assumes "run env acts New = Inr p"
    and "\<forall>cfgs. RecvConfig cfgs \<in> set acts' \<longrightarrow> N \<in> serviceNames cfgs"
  shows "created N (finalState (run env acts' p)) \<le> created N p + 1 \<and>
         (N \<in> keysOf (services p) \<longrightarrow> created N (finalState (run env acts' p)) = created N p) \<and>
         count_list (map fst (services (finalState (run env acts' p)))) N \<le> 1"
proof -
  have "wf p" using assms(1) wf_New by (rule run_wf)
  then have d: "distinct (map fst (services p))" by (simp add: wf_def)
  from run_registry [OF assms(2), of p env] d
  have "created N (finalState (run env acts' p)) = created N p +
        (if N \<in> keysOf (services (finalState (run env acts' p))) \<and> N \<notin> keysOf (services p)
         then 1 else 0)"
    and "distinct (map fst (services (finalState (run env acts' p))))"
    by (simp_all add: registryStep_def)
  moreover from this(2) have "count_list (map fst (services (finalState (run env acts' p)))) N \<le> 1"
    by (rule distinct_count_le_1)
  ultimately show ?thesis by simp
qed

text \<open>
  The same for the handle of \<open>X\<close> over two further snapshots, the second of which ends in
  the panic of closing the public listener of \<open>C\<close>, which is not stored yet.
\<close>

theorem handle_created_once_witness:
  "faultOf (run alwaysOK [RecvConfig snapBC, RecvConfig snapD] withAB) = Some NilListener \<and>
   created ''X'' (finalState (run alwaysOK [RecvConfig snapBC, RecvConfig snapD] withAB)) =
     created ''X'' withAB \<and>
   count_list (map fst (services (finalState
     (run alwaysOK [RecvConfig snapBC, RecvConfig snapD] withAB)))) ''X'' \<le> 1"
proof -
  have f: "faultOf (run alwaysOK [RecvConfig snapBC, RecvConfig snapD] withAB) = Some NilListener"
    by code_simp
  have x: "''X'' \<in> keysOf (services withAB)"
    by code_simp
  have s: "\<forall>cfgs. RecvConfig cfgs \<in> set [RecvConfig snapBC, RecvConfig snapD] \<longrightarrow>
      ''X'' \<in> serviceNames cfgs"
    by (simp add: snapBC_def snapD_def serviceNames_def cfgOf_def)
  from handle_created_once [OF reach_withAB s] x f show ?thesis
    by simp
qed


section \<open>The result of \<open>startListener\<close>\<close>

lemma startUpstreams_quiet:
  "grows notStartFailed p (finalState (startUpstreams pid ucs p))"
proof (induction ucs arbitrary: p)
  case Nil
  show ?case by simp
next
  case (Cons uc ucs)
  let ?q = "(emit [ListenerStart (nextListener p)] (p\<lparr>nextListener := Suc (nextListener p)\<rparr>))
              \<lparr>watchers := watchers p @ [nextListener p]\<rparr>"
  have g: "grows notStartFailed p ?q"
    by (simp add: grows_def notStartFailed_def)
  show ?case
  proof (cases "map_of (proxyStates p) pid")
    case None
    with g show ?thesis by (simp add: newListener_def startListener_def)
  next
    case (Some s)
    let ?r = "?q\<lparr>proxyStates := AList.update pid (s\<lparr>upstreams := AList.update uc (nextListener p) (upstreams s)\<rparr>)
                     (proxyStates p)\<rparr>"
    have "grows notStartFailed p ?r" by (simp add: grows_def notStartFailed_def)
    moreover have "grows notStartFailed ?r (finalState (startUpstreams pid ucs ?r))"
      by (rule Cons.IH)
    ultimately have "grows notStartFailed p (finalState (startUpstreams pid ucs ?r))"
      by (rule grows_trans)
    with Some show ?thesis by (simp add: newListener_def startListener_def)
  qed
qed

lemma serviceFor_quiet:
  "case serviceFor env cfg p of Inl (f, q) \<Rightarrow> grows notStartFailed p q
   | Inr (svc, q) \<Rightarrow> grows notStartFailed p q"
  by (simp add: serviceFor_def Let_def grows_def notStartFailed_def split: option.split)

lemma runServiceProxy_quiet:
  "grows notStartFailed p (finalState (runServiceProxy env pid cfg p))"
proof (cases "map_of (proxyStates p) pid")
  case (Some s)
  then show ?thesis by (simp add: runServiceProxy_def)
next
  case None
  let ?p1 = "emit [Provisioned pid]
            (p\<lparr>proxyStates :=
                 AList.update pid \<lparr>config = cfg, listener = None, upstreams = []\<rparr>
                   (proxyStates p)\<rparr>)"
  have g1: "grows notStartFailed p ?p1"
    by (simp add: grows_def notStartFailed_def)
  show ?thesis
  proof (cases "serviceFor env cfg ?p1")
    case (Inl x)
    obtain f q where x: "x = (f, q)" by (cases x)
    from serviceFor_quiet [where env = env and cfg = cfg and p = ?p1] Inl x have "grows notStartFailed ?p1 q" by simp
    with g1 have "grows notStartFailed p q" by (rule grows_trans)
    with None Inl x show ?thesis by (simp add: runServiceProxy_def)
  next
    case (Inr y)
    obtain svc q where y: "y = (svc, q)" by (cases y)
    let ?q3 = "q\<lparr>publicTasks := publicTasks q @ [(pid, svc)]\<rparr>"
    from serviceFor_quiet [where env = env and cfg = cfg and p = ?p1] Inr y have "grows notStartFailed ?p1 ?q3"
      by (simp add: grows_def)
    with g1 have "grows notStartFailed p ?q3" by (rule grows_trans)
    then have "grows notStartFailed p (finalState (startUpstreams pid (Upstreams cfg) ?q3))"
      using startUpstreams_quiet by (rule grows_trans)
    with None Inr y show ?thesis by (simp add: runServiceProxy_def)
  qed
qed

lemma andThen_quiet:
  assumes "grows P p (finalState r)" and "\<And>q. grows P q (finalState (f q))"
  shows "grows P p (finalState (andThen r f))"
proof (cases r)
  case (Inl x)
  with assms(1) show ?thesis by simp
next
  case (Inr q)
  with assms(1) assms(2) [of q] show ?thesis by (auto intro: grows_trans)
qed

lemma provisionAll_quiet:
  "grows notStartFailed p (finalState (provisionAll env cfgs p))"
proof (induction cfgs arbitrary: p)
  case Nil
  show ?case by simp
next
  case (Cons x cfgs)
  obtain pid cfg where x: "x = (pid, cfg)" by (cases x)
  show ?case
    unfolding x provisionAll.simps
    by (rule andThen_quiet) (rule runServiceProxy_quiet, rule Cons.IH)
qed

lemma closeProxies_quiet:
  "grows notStartFailed p (finalState (closeProxies xs p))"
proof (induction xs arbitrary: p)
  case Nil
  show ?case by simp
next
  case (Cons x xs)
  obtain pid state where x: "x = (pid, state)" by (cases x)
  show ?case
  proof (cases "listener state")
    case None
    then show ?thesis by (simp add: x grows_def notStartFailed_def)
  next
    case (Some l)
    let ?q = "(emit (ListenerClose Decommission l #
                    map (\<lambda>(k, u). ListenerClose Decommission u) (upstreams state))
               (emit [Decommissioned pid] p))
               \<lparr>proxyStates := AList.delete pid (proxyStates p)\<rparr>"
    have "grows notStartFailed p ?q"
      by (simp add: grows_def notStartFailed_def list_all_iff split_def)
    then have "grows notStartFailed p (finalState (closeProxies xs ?q))"
      using Cons.IH by (rule grows_trans)
    with Some show ?thesis by (simp add: x)
  qed
qed

lemma closeServices_quiet:
  "grows notStartFailed p (finalState (closeServices xs p))"
proof (induction xs arbitrary: p)
  case Nil
  show ?case by simp
next
  case (Cons x xs)
  obtain name service where x: "x = (name, service)" by (cases x)
  show ?case
  proof (cases service)
    case None
    then show ?thesis by (simp add: x)
  next
    case (Some h)
    let ?q = "(emit [ServiceClose name] p)\<lparr>services := AList.delete name (services p)\<rparr>"
    have "grows notStartFailed p ?q"
      by (simp add: grows_def notStartFailed_def)
    then have "grows notStartFailed p (finalState (closeServices xs ?q))"
      using Cons.IH by (rule grows_trans)
    with Some show ?thesis by (simp add: x)
  qed
qed

lemma closeAll_quiet:
  "grows notStartFailed p (finalState (closeAll xs p))"
proof (induction xs arbitrary: p)
  case Nil
  show ?case by simp
next
  case (Cons x xs)
  obtain name service where x: "x = (name, service)" by (cases x)
  show ?case
  proof (cases service)
    case None
    then show ?thesis by (simp add: x)
  next
    case (Some h)
    have "grows notStartFailed p (emit [ServiceClose name] p)"
      by (simp add: grows_def notStartFailed_def)
    then have "grows notStartFailed p (finalState (closeAll xs (emit [ServiceClose name] p)))"
      using Cons.IH by (rule grows_trans)
    with Some show ?thesis by (simp add: x)
  qed
qed

lemma removeNotPresent_quiet:
  "grows notStartFailed p (finalState (removeNotPresent new p))"
  unfolding removeNotPresent_def
  by (rule andThen_quiet) (rule closeProxies_quiet, rule closeServices_quiet)

lemma applySnapshot_quiet:
  "grows notStartFailed p (finalState (applySnapshot env cfgs p))"
  unfolding applySnapshot_def
  by (rule andThen_quiet) (rule provisionAll_quiet, rule removeNotPresent_quiet)

lemma Close_quiet:
  "grows notStartFailed p (finalState (Close p))"
proof (cases "stopChan p")
  case True
  then show ?thesis by (simp add: Close_def)
next
  case False
  have "grows notStartFailed p (emit [StopSignal] (p\<lparr>stopChan := True\<rparr>))"
    by (simp add: grows_def notStartFailed_def)
  then have "grows notStartFailed p
      (finalState (closeAll (services p) (emit [StopSignal] (p\<lparr>stopChan := True\<rparr>))))"
    using closeAll_quiet by (rule grows_trans)
  with False show ?thesis by (simp add: Close_def)
qed

lemma publicListenerTask_quiet:
  "grows notStartFailed p (finalState (publicListenerTask pid svc p))"
  by (simp add: publicListenerTask_def newListener_def startListener_def grows_def
      notStartFailed_def split: option.split)

lemma step_quiet:
  "grows notStartFailed p (finalState (step env a p))"
proof (cases a)
  case (RecvConfig cfgs)
  then show ?thesis by (simp add: applySnapshot_quiet)
next
  case RecvStop
  then show ?thesis by (simp add: grows_def)
next
  case CallClose
  then show ?thesis by (simp add: Close_quiet)
next
  case (RunPublicTask k)
  have "grows notStartFailed p (p\<lparr>publicTasks := dropAt k (publicTasks p)\<rparr>)"
    by (simp add: grows_def)
  then have "grows notStartFailed p
     (finalState (publicListenerTask (fst (publicTasks p ! k)) (snd (publicTasks p ! k))
             (p\<lparr>publicTasks := dropAt k (publicTasks p)\<rparr>)))"
    using publicListenerTask_quiet by (rule grows_trans)
  with RunPublicTask show ?thesis by simp
next
  case (RunWatcher k)
  then show ?thesis by (simp add: grows_def watcherTask_def notStartFailed_def)
qed

lemma run_quiet:
  "grows notStartFailed p (finalState (run env as p))"
proof (induction as arbitrary: p)
  case Nil
  show ?case by simp
next
  case (Cons a as)
  show ?case
    unfolding run.simps
    by (rule andThen_quiet) (rule step_quiet, rule Cons.IH)
qed

text \<open>
  C9. \<open>startListener\<close> returns nil whatever its arguments, and in no run of the process,
  whether it goes on or ends in a panic, is the "failed to start" line of
  \<open>runServiceProxy\<close> logged.
\<close>

theorem startListener_never_fails:
  "fst (startListener name l p) = None \<and>
   LogStartFailed n \<notin> set (trace (finalState (run env acts New)))"
proof -
  from run_quiet [of New env acts]
  obtain evs where "trace (finalState (run env acts New)) = trace New @ evs"
    and "list_all notStartFailed evs"
    by (auto simp add: grows_def)
  then have "LogStartFailed n \<notin> set (trace (finalState (run env acts New)))"
    by (auto simp add: New_def list_all_iff notStartFailed_def)
  then show ?thesis by (simp add: startListener_def)
qed

section \<open>A handle that could not be created\<close>



section \<open>Closing the listeners\<close>

lemma count_list_map_inj:
  "inj f \<Longrightarrow> count_list (map f xs) (f x) = count_list xs x"
  by (induction xs) (auto dest: injD)

lemma count_list_concat:
  "count_list (concat xss) x = sum_list (map (\<lambda>xs. count_list xs x) xss)"
  by (induction xss) auto

lemma refs_simps [simp]:
  "refs [] = []" "refs (kv # al) = refsOf (snd kv) @ refs al"
  "refs (al @ bl) = refs al @ refs bl"
  by (simp_all add: refs_def)

lemma refs_update_absent:
  "k \<notin> keysOf al \<Longrightarrow> refs (AList.update k s al) = refs al @ refsOf s"
  by (induction al) auto

lemma refs_update_present:
  "map_of al k = Some s \<Longrightarrow>
   count_list (refs (AList.update k s' al)) l + count_list (refsOf s) l =
     count_list (refs al) l + count_list (refsOf s') l"
  by (induction al) auto

lemma refs_filter_split:
  "count_list (refs (filter P al)) l + count_list (refs (filter (\<lambda>kv. \<not> P kv) al)) l =
     count_list (refs al) l"
  by (induction al) auto

lemma count_snd_update:
  "count_list (map snd (AList.update k v al)) x \<le>
     count_list (map snd al) x + (if x = v then 1 else 0)"
  by (induction al) auto

lemma count_upt: "count_list [m..<n] l = (if m \<le> l \<and> l < n then 1 else 0)"
  by (induction n) auto

lemma accountedD:
  assumes "accounted p"
  shows "count_list (watchers p) l + watcherClosed l p = started l p"
    and "started l p = (if l < nextListener p then 1 else 0)"
    and "count_list (refs (proxyStates p)) l + syncClosed l p \<le> started l p"
  using assms unfolding accounted_def by blast+

lemma accountedI:
  assumes "\<And>l. count_list (watchers p) l + watcherClosed l p = started l p"
    and "\<And>l. started l p = (if l < nextListener p then 1 else 0)"
    and "\<And>l. count_list (refs (proxyStates p)) l + syncClosed l p \<le> started l p"
  shows "accounted p"
  using assms unfolding accounted_def by blast

lemma accounted_neutral:
  assumes "accounted p" and "watchers q = watchers p" and "nextListener q = nextListener p"
    and "grows (\<lambda>e. \<not> listenerEvent e) p q" and "refs (proxyStates q) = refs (proxyStates p)"
  shows "accounted q"
proof -
  from assms(4) have "count_list (trace q) (ListenerStart l) = count_list (trace p) (ListenerStart l)"
    "count_list (trace q) (ListenerClose s l) = count_list (trace p) (ListenerClose s l)" for s l
    by (simp_all add: grows_count listenerEvent_def)
  then have e: "started l q = started l p" "watcherClosed l q = watcherClosed l p"
    "syncClosed l q = syncClosed l p" for l
    by (simp_all add: started_def watcherClosed_def syncClosed_def)
  show ?thesis
  proof (rule accountedI)
    fix l
    show "count_list (watchers q) l + watcherClosed l q = started l q"
      using accountedD(1) [OF assms(1), of l] by (simp add: e assms(2))
    show "started l q = (if l < nextListener q then 1 else 0)"
      using accountedD(2) [OF assms(1), of l] by (simp add: e assms(3))
    show "count_list (refs (proxyStates q)) l + syncClosed l q \<le> started l q"
      using accountedD(3) [OF assms(1), of l] by (simp add: e assms(5))
  qed
qed

lemma accounted_start:
  assumes "accounted p" and "map_of (proxyStates p) pid = Some s"
    and "\<And>l. count_list (refsOf s') l \<le> count_list (refsOf s) l + (if l = nextListener p then 1 else 0)"
    and "trace q = trace p @ [ListenerStart (nextListener p)]"
    and "nextListener q = Suc (nextListener p)"
    and "watchers q = watchers p @ [nextListener p]"
    and "proxyStates q = AList.update pid s' (proxyStates p)"
  shows "accounted q"
proof (rule accountedI)
  fix l
  note a = accountedD(1) [OF assms(1), of l]
  note b = accountedD(2) [OF assms(1), of l]
  note c = accountedD(3) [OF assms(1), of l]
  have st: "started l q = started l p + (if l = nextListener p then 1 else 0)"
    by (simp add: started_def assms(4))
  have wc: "watcherClosed l q = watcherClosed l p" and sc: "syncClosed l q = syncClosed l p"
    by (simp_all add: watcherClosed_def syncClosed_def assms(4))
  have "count_list (watchers q) l = count_list (watchers p) l + (if l = nextListener p then 1 else 0)"
    by (simp add: assms(6))
  with a st wc show "count_list (watchers q) l + watcherClosed l q = started l q"
    by presburger
  from b st show "started l q = (if l < nextListener q then 1 else 0)"
    by (auto simp add: assms(5))
  from refs_update_present [OF assms(2), of s' l] assms(3) [of l]
  have "count_list (refs (proxyStates q)) l \<le>
      count_list (refs (proxyStates p)) l + (if l = nextListener p then 1 else 0)"
    by (simp add: assms(7))
  with c st sc show "count_list (refs (proxyStates q)) l + syncClosed l q \<le> started l q"
    by simp
qed

lemma accounted_publicTasks [simp]: "accounted (p\<lparr>publicTasks := x\<rparr>) = accounted p"
  by (simp add: accounted_def started_def watcherClosed_def syncClosed_def)

lemma accounted_serving [simp]: "accounted (p\<lparr>serving := x\<rparr>) = accounted p"
  by (simp add: accounted_def started_def watcherClosed_def syncClosed_def)

lemma accounted_New: "accounted New"
  by (simp add: accounted_def started_def watcherClosed_def syncClosed_def New_def)

lemma startUpstreams_accounted:
  "startUpstreams pid ucs p = Inr p' \<Longrightarrow> accounted p \<Longrightarrow> accounted p'"
proof (induction ucs arbitrary: p)
  case Nil
  then show ?case by simp
next
  case (Cons uc ucs)
  from Cons.prems(1) obtain s where s: "map_of (proxyStates p) pid = Some s"
    by (cases "map_of (proxyStates p) pid") (simp_all add: newListener_def startListener_def)
  let ?s' = "s\<lparr>upstreams := AList.update uc (nextListener p) (upstreams s)\<rparr>"
  let ?r = "(emit [ListenerStart (nextListener p)] (p\<lparr>nextListener := Suc (nextListener p)\<rparr>))
              \<lparr>watchers := watchers p @ [nextListener p],
               proxyStates := AList.update pid ?s' (proxyStates p)\<rparr>"
  from Cons.prems(1) s have r: "startUpstreams pid ucs ?r = Inr p'"
    by (simp add: newListener_def startListener_def)
  have "count_list (refsOf ?s') l \<le> count_list (refsOf s) l + (if l = nextListener p then 1 else 0)" for l
    using count_snd_update [of uc "nextListener p" "upstreams s" l] by (simp add: refsOf_def)
  with Cons.prems(2) s have "accounted ?r"
    by (rule accounted_start) simp_all
  with r show ?case by (rule Cons.IH)
qed

lemma serviceFor_accounted:
  assumes "serviceFor env cfg p = Inr (svc, p')" and "accounted p"
  shows "accounted p'"
  using assms(1)
proof (cases rule: serviceFor_cases)
  case found
  with assms(2) show ?thesis by simp
next
  case created
  from assms(2) show ?thesis
    by (rule accounted_neutral) (simp_all add: created grows_def listenerEvent_def)
qed

lemma runServiceProxy_accounted:
  assumes "runServiceProxy env pid cfg p = Inr p'" and "accounted p"
  shows "accounted p'"
  using assms(1)
proof (cases rule: runServiceProxy_cases)
  case present
  with assms(2) show ?thesis by simp
next
  case (fresh svc p2)
  let ?p1 = "emit [Provisioned pid]
            (p\<lparr>proxyStates :=
                 AList.update pid \<lparr>config = cfg, listener = None, upstreams = []\<rparr>
                   (proxyStates p)\<rparr>)"
  from assms(2) have "accounted ?p1"
    by (rule accounted_neutral)
      (simp_all add: grows_def listenerEvent_def refs_update_absent fresh(1) refsOf_def)
  with fresh(2) have "accounted p2" by (rule serviceFor_accounted)
  then have "accounted (p2\<lparr>publicTasks := publicTasks p2 @ [(pid, svc)]\<rparr>)" by simp
  with fresh(3) show ?thesis by (rule startUpstreams_accounted)
qed

lemma provisionAll_accounted:
  "provisionAll env cfgs p = Inr p' \<Longrightarrow> accounted p \<Longrightarrow> accounted p'"
proof (induction cfgs arbitrary: p)
  case Nil
  then show ?case by simp
next
  case (Cons x cfgs)
  obtain pid cfg where x: "x = (pid, cfg)" by (cases x)
  from Cons.prems(1) obtain p1 where r: "runServiceProxy env pid cfg p = Inr p1"
    and a: "provisionAll env cfgs p1 = Inr p'"
    by (auto simp add: x andThen_Inr_iff)
  from r Cons.prems(2) have "accounted p1" by (rule runServiceProxy_accounted)
  with a show ?case by (rule Cons.IH)
qed

lemma closeProxies_listeners:
  "closeProxies xs p = Inr p' \<Longrightarrow>
     (\<forall>l. syncClosed l p' = syncClosed l p + count_list (refs xs) l) \<and>
     (\<forall>l. started l p' = started l p) \<and> (\<forall>l. watcherClosed l p' = watcherClosed l p)"
proof (induction xs arbitrary: p)
  case Nil
  then show ?case by simp
next
  case (Cons x xs)
  obtain pid state where x: "x = (pid, state)" by (cases x)
  from Cons.prems obtain l0 where l0: "listener state = Some l0"
    by (cases "listener state") (simp_all add: x)
  let ?q = "(emit (ListenerClose Decommission l0 #
                    map (\<lambda>(k, u). ListenerClose Decommission u) (upstreams state))
               (emit [Decommissioned pid] p))
               \<lparr>proxyStates := AList.delete pid (proxyStates p)\<rparr>"
  from Cons.prems l0 have r: "closeProxies xs ?q = Inr p'"
    by (simp add: x)
  have m: "count_list (map (\<lambda>(k, u). ListenerClose Decommission u) us) (ListenerClose Decommission l) =
      count_list (map snd us) l"
    "count_list (map (\<lambda>(k, u). ListenerClose Decommission u) us) (ListenerStart l) = 0"
    "count_list (map (\<lambda>(k, u). ListenerClose Decommission u) us) (ListenerClose StopWatcher l) = 0"
    for us :: "(string \<times> listenerRef) list" and l
    by (induction us; auto)+
  have q: "syncClosed l ?q = syncClosed l p + count_list (refsOf state) l"
    "started l ?q = started l p" "watcherClosed l ?q = watcherClosed l p" for l
    by (simp_all add: syncClosed_def started_def watcherClosed_def refsOf_def l0 m)
  from Cons.IH [OF r] show ?case
    by (simp add: q x)
qed

lemma closeServices_listeners:
  "closeServices xs p = Inr p' \<Longrightarrow> grows (\<lambda>e. \<not> listenerEvent e) p p'"
proof (induction xs arbitrary: p)
  case Nil
  then show ?case by simp
next
  case (Cons x xs)
  obtain name service where x: "x = (name, service)" by (cases x)
  from Cons.prems obtain h where h: "service = Some h"
    by (cases service) (simp_all add: x)
  let ?q = "(emit [ServiceClose name] p)\<lparr>services := AList.delete name (services p)\<rparr>"
  from Cons.prems h have r: "closeServices xs ?q = Inr p'"
    by (simp add: x)
  have "grows (\<lambda>e. \<not> listenerEvent e) p ?q"
    by (simp add: grows_def listenerEvent_def)
  then show ?case using Cons.IH [OF r] by (rule grows_trans)
qed

lemma removeNotPresent_accounted:
  assumes "removeNotPresent new p = Inr p'" and "accounted p"
  shows "accounted p'"
proof -
  from assms(1) obtain p1 where a: "closeProxies (removedProxies new p) p = Inr p1"
    and b: "closeServices (removedServices new p1) p1 = Inr p'"
    by (auto simp add: removeNotPresent_def andThen_Inr_iff)
  note ca = closeProxies_conj [OF a]
  note la = closeProxies_listeners [OF a]
  note cb = closeServices_conj [OF b]
  have ps: "proxyStates p1 = filter (\<lambda>kv. fst kv \<in> keysOf new) (proxyStates p)"
    using ca by (simp add: removedProxies_filter filter_removed_keys)
  have "accounted p1"
  proof (rule accountedI)
    fix l
    show "count_list (watchers p1) l + watcherClosed l p1 = started l p1"
      using accountedD(1) [OF assms(2), of l] ca la by simp
    show "started l p1 = (if l < nextListener p1 then 1 else 0)"
      using accountedD(2) [OF assms(2), of l] ca la by simp
    have "count_list (refs (proxyStates p1)) l + syncClosed l p1 =
        count_list (refs (proxyStates p)) l + syncClosed l p"
      using la refs_filter_split [of "\<lambda>kv. fst kv \<in> keysOf new" "proxyStates p" l]
      by (simp add: ps removedProxies_filter)
    then show "count_list (refs (proxyStates p1)) l + syncClosed l p1 \<le> started l p1"
      using accountedD(3) [OF assms(2), of l] la by simp
  qed
  then show ?thesis
    using cb closeServices_listeners [OF b] by (intro accounted_neutral [of p1 p']) simp_all
qed

lemma applySnapshot_accounted:
  assumes "applySnapshot env cfgs p = Inr p'" and "accounted p"
  shows "accounted p'"
proof -
  from assms(1) obtain p1 where a: "provisionAll env cfgs p = Inr p1"
    and b: "removeNotPresent cfgs p1 = Inr p'"
    by (auto simp add: applySnapshot_def andThen_Inr_iff)
  from a assms(2) have "accounted p1" by (rule provisionAll_accounted)
  with b show ?thesis by (rule removeNotPresent_accounted)
qed

lemma Close_accounted:
  assumes "Close p = Inr p'" and "accounted p"
  shows "accounted p'"
proof -
  from assms(1) obtain evs where p': "p' = emit (StopSignal # evs) (p\<lparr>stopChan := True\<rparr>)"
    and evs: "set evs \<subseteq> range ServiceClose"
    by (rule Close_Inr)
  from evs have "list_all (\<lambda>e. \<not> listenerEvent e) evs"
    by (auto simp add: list_all_iff listenerEvent_def)
  then have g: "grows (\<lambda>e. \<not> listenerEvent e) p p'"
    by (simp add: p' grows_def listenerEvent_def)
  show ?thesis
    by (rule accounted_neutral [OF assms(2) _ _ g]) (simp_all add: p')
qed

lemma publicListenerTask_accounted:
  assumes "publicListenerTask pid svc p = Inr p'" and "accounted p"
  shows "accounted p'"
  using assms(1)
proof (rule publicListenerTask_Inr)
  fix s
  assume s: "map_of (proxyStates p) pid = Some s"
    and p': "p' = (emit [ListenerStart (nextListener p)] p)
            \<lparr>nextListener := Suc (nextListener p), watchers := watchers p @ [nextListener p],
             proxyStates := AList.update pid (s\<lparr>listener := Some (nextListener p)\<rparr>) (proxyStates p)\<rparr>"
  have "count_list (refsOf (s\<lparr>listener := Some (nextListener p)\<rparr>)) l \<le>
      count_list (refsOf s) l + (if l = nextListener p then 1 else 0)" for l
    by (cases "listener s") (simp_all add: refsOf_def)
  with assms(2) s show ?thesis
    by (rule accounted_start) (simp_all add: p')
qed

lemma count_list_dropAt:
  "k < length xs \<Longrightarrow> count_list (dropAt k xs) x + (if xs ! k = x then 1 else 0) = count_list xs x"
proof -
  assume "k < length xs"
  then have "xs = take k xs @ xs ! k # drop (Suc k) xs"
    by (rule id_take_nth_drop)
  then have "count_list xs x = count_list (take k xs @ xs ! k # drop (Suc k) xs) x"
    by simp
  then show ?thesis by (simp add: dropAt_def)
qed

lemma watcher_accounted:
  assumes "accounted p" and "k < length (watchers p)"
  shows "accounted (watcherTask (watchers p ! k) (p\<lparr>watchers := dropAt k (watchers p)\<rparr>))"
proof (rule accountedI)
  fix l
  let ?q = "watcherTask (watchers p ! k) (p\<lparr>watchers := dropAt k (watchers p)\<rparr>)"
  have w: "watcherClosed l ?q = watcherClosed l p + (if watchers p ! k = l then 1 else 0)"
    and st: "started l ?q = started l p" and sc: "syncClosed l ?q = syncClosed l p"
    by (simp_all add: watcherTask_def watcherClosed_def started_def syncClosed_def)
  from count_list_dropAt [OF assms(2), of l] accountedD(1) [OF assms(1), of l] w st
  show "count_list (watchers ?q) l + watcherClosed l ?q = started l ?q"
    by (simp add: watcherTask_def)
  from accountedD(2) [OF assms(1), of l] st
  show "started l ?q = (if l < nextListener ?q then 1 else 0)"
    by (simp add: watcherTask_def)
  from accountedD(3) [OF assms(1), of l] st sc
  show "count_list (refs (proxyStates ?q)) l + syncClosed l ?q \<le> started l ?q"
    by (simp add: watcherTask_def)
qed

lemma step_accounted:
  assumes "step env a p = Inr p'" and "accounted p"
  shows "accounted p'"
proof (cases a)
  case (RecvConfig cfgs)
  with assms show ?thesis
    by (cases "serving p") (auto intro: applySnapshot_accounted)
next
  case RecvStop
  with assms show ?thesis by (cases "stopChan p") auto
next
  case CallClose
  with assms show ?thesis by (auto intro: Close_accounted)
next
  case (RunPublicTask k)
  show ?thesis
  proof (cases "k < length (publicTasks p)")
    case True
    with RunPublicTask assms(1)
    have "publicListenerTask (fst (publicTasks p ! k)) (snd (publicTasks p ! k))
              (p\<lparr>publicTasks := dropAt k (publicTasks p)\<rparr>) = Inr p'" by simp
    moreover from assms(2) have "accounted (p\<lparr>publicTasks := dropAt k (publicTasks p)\<rparr>)"
      by simp
    ultimately show ?thesis by (rule publicListenerTask_accounted)
  next
    case False
    with RunPublicTask assms show ?thesis by simp
  qed
next
  case (RunWatcher k)
  show ?thesis
  proof (cases "stopChan p \<and> k < length (watchers p)")
    case True
    with RunWatcher assms(1)
    have "p' = watcherTask (watchers p ! k) (p\<lparr>watchers := dropAt k (watchers p)\<rparr>)"
      by simp
    with watcher_accounted [OF assms(2), of k] True show ?thesis by simp
  next
    case False
    with RunWatcher assms show ?thesis by auto
  qed
qed

lemma run_accounted: "run env as p = Inr p' \<Longrightarrow> accounted p \<Longrightarrow> accounted p'"
  by (induction as arbitrary: p) (auto simp add: andThen_Inr_iff intro: step_accounted)

lemma run_drain:
  "stopChan p \<Longrightarrow> watchers p = ws \<Longrightarrow>
   \<exists>p'. run env (replicate (length ws) (RunWatcher 0)) p = Inr p' \<and> watchers p' = [] \<and>
        trace p' = trace p @ map (ListenerClose StopWatcher) ws"
proof (induction ws arbitrary: p)
  case Nil
  then show ?case by simp
next
  case (Cons w ws)
  let ?q = "watcherTask w (p\<lparr>watchers := ws\<rparr>)"
  from Cons.prems have s: "step env (RunWatcher 0) p = Inr ?q"
    by (simp add: dropAt_def)
  have "stopChan ?q" "watchers ?q = ws"
    using Cons.prems by (simp_all add: watcherTask_def)
  from Cons.IH [OF this] obtain p' where
    "run env (replicate (length ws) (RunWatcher 0)) ?q = Inr p'" "watchers p' = []"
    "trace p' = trace ?q @ map (ListenerClose StopWatcher) ws"
    by blast
  with s show ?case by (simp add: watcherTask_def)
qed

lemma reach_stoppedAfterRemoval:
  "run alwaysOK [RecvConfig [(''A'', cfgOf ''X'' [''u1''])], RunPublicTask 0,
                   RecvConfig [], CallClose] New = Inr stoppedAfterRemoval"
  by code_simp

text \<open>
  C2, as the code has it. In every state reached without a panic, a listener that was
  started has its goroutine of \<open>startListener\<close> still waiting for the stop channel or
  was closed by it exactly once, never both, and \<open>removeNotPresent\<close> has closed it at most
  once. Once the stop channel is closed, letting the waiting goroutines run leaves none
  waiting: then \<open>Close\<close> was called on the listener once by its goroutine, and so once in
  all, or twice when a decommission had closed it as well.
\<close>

theorem stop_closes_every_listener:
  assumes "run env acts New = Inr p" and "ListenerStart l \<in> set (trace p)"
  shows "count_list (watchers p) l + watcherClosed l p = 1 \<and> syncClosed l p \<le> 1 \<and>
         (stopChan p \<longrightarrow>
           (\<exists>p'. run env (drain p) p = Inr p' \<and> watchers p' = [] \<and>
              watcherClosed l p' = 1 \<and> syncClosed l p' = syncClosed l p \<and>
              closeCalls l p' = 1 + syncClosed l p'))"
proof -
  have a: "accounted p" using assms(1) accounted_New by (rule run_accounted)
  from assms(2) have "started l p \<noteq> 0"
    by (simp add: started_def count_list_0_iff)
  with accountedD(2) [OF a, of l] have st: "started l p = 1"
    by (cases "l < nextListener p") simp_all
  from accountedD(1) [OF a, of l] st have w1: "count_list (watchers p) l + watcherClosed l p = 1"
    by simp
  from accountedD(3) [OF a, of l] st have s1: "syncClosed l p \<le> 1" by simp
  have "\<exists>p'. run env (drain p) p = Inr p' \<and> watchers p' = [] \<and>
              watcherClosed l p' = 1 \<and> syncClosed l p' = syncClosed l p \<and>
              closeCalls l p' = 1 + syncClosed l p'" if stop: "stopChan p"
  proof -
    from run_drain [OF stop refl, of env] obtain p' where r: "run env (drain p) p = Inr p'"
      and w: "watchers p' = []"
      and t: "trace p' = trace p @ map (ListenerClose StopWatcher) (watchers p)"
      by (auto simp add: drain_def)
    have i: "inj (ListenerClose StopWatcher)" by (simp add: inj_def)
    have "watcherClosed l p' = watcherClosed l p + count_list (watchers p) l"
      by (simp add: watcherClosed_def t count_list_map_inj [OF i])
    with w1 have wc: "watcherClosed l p' = 1" by simp
    have sc: "syncClosed l p' = syncClosed l p"
      by (simp add: syncClosed_def t count_list_map_other)
    from r w wc sc show ?thesis by (auto simp add: closeCalls_def)
  qed
  with w1 s1 show ?thesis by blast
qed

text \<open>The same for listener 0 of the run that removes \<open>A\<close> before the host stops the engine.\<close>

theorem stop_closes_every_listener_witness:
  "count_list (watchers stoppedAfterRemoval) 0 + watcherClosed 0 stoppedAfterRemoval = 1 \<and>
   syncClosed 0 stoppedAfterRemoval \<le> 1 \<and>
   (\<exists>p'. run alwaysOK (drain stoppedAfterRemoval) stoppedAfterRemoval = Inr p' \<and> watchers p' = [] \<and>
           watcherClosed 0 p' = 1 \<and> syncClosed 0 p' = syncClosed 0 stoppedAfterRemoval \<and>
           closeCalls 0 p' = 1 + syncClosed 0 p')"
proof -
  have 2: "stopChan stoppedAfterRemoval" by code_simp
  have 3: "ListenerStart 0 \<in> set (trace stoppedAfterRemoval)" by code_simp
  from stop_closes_every_listener [OF reach_stoppedAfterRemoval 3] 2 show ?thesis by simp
qed

text \<open>
  C2 as stated fails: the upstream listener of the removed instance \<open>A\<close> (listener 0) is
  closed by the decommission and again by its goroutine after \<open>Close\<close>.
\<close>

theorem listener_closed_twice_counterexample:
  "count_list (trace stoppedAfterRemoval) (ListenerStart 0) = 1 \<and>
   faultOf (run alwaysOK (drain stoppedAfterRemoval) stoppedAfterRemoval) = None \<and>
   closeCalls 0 afterWatchers = 2"
  by code_simp

end
